theory Spec2Isabelle
  imports Main "HOL-Library.Char_ord" "HOL-Library.List_Lexorder"
begin

section \<open>Errors\<close>

text \<open>
  Every exception the capture pipeline can raise is a value. \<open>ValueError\<close> carries its
  message; \<open>Exit\<close> is the command line's \<open>typer.Exit(code)\<close>. \<open>UnicodeDecodeError\<close> and
  \<open>CalledProcessError\<close> (with the exit code) are what \<open>subprocess.run\<close> can raise after
  the program has run; no handler of the program catches them.
\<close>

datatype error =
    ValueError string
  | OverflowError
  | FileExistsError
  | FileNotFoundError
  | NotADirectoryError
  | IsADirectoryError
  | UnicodeDecodeError
  | CalledProcessError int
  | Exit int

definition bind_err :: "error + 'a \<Rightarrow> ('a \<Rightarrow> error + 'b) \<Rightarrow> error + 'b" where
  "bind_err r f = (case r of Inl e \<Rightarrow> Inl e | Inr x \<Rightarrow> f x)"

section \<open>Strings\<close>

text \<open>
  A Python \<open>str\<close> is modelled as a \<open>string\<close>: a list of characters with code points
  below 256. On these code points \<open>str.isspace\<close> holds for the ASCII white space, the
  separators 28 to 31, NEL (133) and the no-break space (160); \<open>\d\<close> matches the ten
  ASCII digits only; and the letters that the case-insensitive pattern letters match
  are the ASCII ones.
\<close>

definition isspace :: "char \<Rightarrow> bool" where
  "isspace c = (let n = (of_char c :: nat) in
     (9 \<le> n \<and> n \<le> 13) \<or> (28 \<le> n \<and> n \<le> 32) \<or> n = 133 \<or> n = 160)"

definition isdigit :: "char \<Rightarrow> bool" where
  "isdigit c = (let n = (of_char c :: nat) in 48 \<le> n \<and> n \<le> 57)"

definition lower :: "char \<Rightarrow> char" where
  "lower c = (let n = (of_char c :: nat) in
     if (65 \<le> n \<and> n \<le> 90) \<or> (192 \<le> n \<and> n \<le> 222 \<and> n \<noteq> 215)
     then char_of (n + 32) else c)"

definition strip :: "string \<Rightarrow> string" where
  "strip s = rev (dropWhile isspace (rev (dropWhile isspace s)))"

definition endswith :: "string \<Rightarrow> string \<Rightarrow> bool" where
  "endswith s suffix = (length suffix \<le> length s \<and> drop (length s - length suffix) s = suffix)"

definition digit_val :: "char \<Rightarrow> int" where
  "digit_val c = int (of_char c) - 48"

definition digits_value :: "string \<Rightarrow> int" where
  \<comment> \<open>the number that a string of decimal digits denotes\<close>
  "digits_value ds = foldl (\<lambda>a c. 10 * a + digit_val c) 0 ds"

definition digit_char :: "nat \<Rightarrow> char" where
  "digit_char n = char_of (48 + n mod 10)"

fun digits :: "nat \<Rightarrow> string" where
  "digits n = (if n < 10 then [digit_char n] else digits (n div 10) @ [digit_char n])"

declare digits.simps [simp del]

text \<open>
  \<open>int(s)\<close> on a string of decimal digits, as CPython 3.11 converts it: the conversion
  refuses a string of more than 4300 digits, leading zeros counted, with a
  \<open>ValueError\<close>.
\<close>

definition MAX_STR_DIGITS :: nat where "MAX_STR_DIGITS = 4300"

definition INT_LIMIT_MSG :: "nat \<Rightarrow> string" where
  "INT_LIMIT_MSG n =
     ''Exceeds the limit (4300 digits) for integer string conversion: value has '' @ digits n
     @ '' digits; use sys.set_int_max_str_digits() to increase the limit''"

definition to_int :: "string \<Rightarrow> error + int" where
  "to_int ds =
     (if MAX_STR_DIGITS < length ds then Inl (ValueError (INT_LIMIT_MSG (length ds)))
      else Inr (digits_value ds))"

definition zpad :: "nat \<Rightarrow> int \<Rightarrow> string" where
  \<comment> \<open>\<open>"%0wd" % n\<close> for \<open>n \<ge> 0\<close>: at least \<open>w\<close> digits, zero filled\<close>
  "zpad w n = (let d = digits (nat n) in replicate (w - length d) (CHR ''0'') @ d)"

section \<open>The relative grammar\<close>

text \<open>
  \<open>_REL_RE = re.compile(r"^last:(?P<value>\d+)(?P<unit>[smhd])$", re.IGNORECASE)\<close>,
  applied with \<open>match\<close>. The digits and the unit letters are disjoint, so the greedy
  \<open>\d+\<close> takes every leading digit; \<open>$\<close> matches at the end of the string or before
  a final newline. The result is the pair of the groups \<open>value\<close> and \<open>unit\<close>.
\<close>

definition rel_match :: "string \<Rightarrow> (string \<times> char) option" where
  "rel_match v =
     (if map lower (take 5 v) = ''last:'' then
        (let rest = drop 5 v; ds = takeWhile isdigit rest in
         case dropWhile isdigit rest of
           [] \<Rightarrow> None
         | u # after \<Rightarrow>
             if ds \<noteq> [] \<and> lower u \<in> set ''smhd'' \<and> (after = [] \<or> after = [CHR 0x0A])
             then Some (ds, u) else None)
      else None)"

section \<open>The calendar of the datetime library\<close>

text \<open>
  The proleptic Gregorian calendar as the library computes it: day ordinals count from
  1 for 0001-01-01, and \<open>MAXORDINAL\<close> is the ordinal of 9999-12-31.
\<close>

definition MINYEAR :: int where "MINYEAR = 1"
definition MAXYEAR :: int where "MAXYEAR = 9999"
definition MAXORDINAL :: int where "MAXORDINAL = 3652059"

definition DAYS_IN_MONTH :: "int list" where
  "DAYS_IN_MONTH = [31, 28, 31, 30, 31, 30, 31, 31, 30, 31, 30, 31]"

definition DAYS_BEFORE_MONTH :: "int list" where
  "DAYS_BEFORE_MONTH = [0, 31, 59, 90, 120, 151, 181, 212, 243, 273, 304, 334]"

definition is_leap :: "int \<Rightarrow> bool" where
  "is_leap y = (y mod 4 = 0 \<and> (y mod 100 \<noteq> 0 \<or> y mod 400 = 0))"

definition days_before_year :: "int \<Rightarrow> int" where
  "days_before_year yr = (let y = yr - 1 in y * 365 + y div 4 - y div 100 + y div 400)"

definition days_in_month :: "int \<Rightarrow> int \<Rightarrow> int" where
  "days_in_month y m = (if m = 2 \<and> is_leap y then 29 else DAYS_IN_MONTH ! nat (m - 1))"

definition days_before_month :: "int \<Rightarrow> int \<Rightarrow> int" where
  "days_before_month y m =
     DAYS_BEFORE_MONTH ! nat (m - 1) + (if m > 2 \<and> is_leap y then 1 else 0)"

definition ymd2ord :: "int \<Rightarrow> int \<Rightarrow> int \<Rightarrow> int" where
  "ymd2ord y m d = days_before_year y + days_before_month y m + d"

definition ord2ymd :: "int \<Rightarrow> int \<times> int \<times> int" where
  "ord2ymd n0 =
     (let n = n0 - 1;
          n400 = n div 146097; n = n mod 146097;
          n100 = n div 36524; n = n mod 36524;
          n4 = n div 1461; n = n mod 1461;
          n1 = n div 365; n = n mod 365;
          yr = n400 * 400 + 1 + n100 * 100 + n4 * 4 + n1
      in if n1 = 4 \<or> n100 = 4 then (yr - 1, 12, 31)
         else
           (let leapyear = (n1 = 3 \<and> (n4 \<noteq> 24 \<or> n100 = 3));
                mth = (n + 50) div 32;
                preceding = DAYS_BEFORE_MONTH ! nat (mth - 1)
                            + (if mth > 2 \<and> leapyear then 1 else 0)
            in if preceding > n
               then (let mth' = mth - 1;
                         preceding' = preceding - (DAYS_IN_MONTH ! nat (mth' - 1)
                                        + (if mth' = 2 \<and> leapyear then 1 else 0))
                     in (yr, mth', n - preceding' + 1))
               else (yr, mth, n - preceding + 1)))"

text \<open>
  The last step of \<open>ord2ymd\<close> on its own, for the proofs: the month and the day of the
  day \<open>n\<close> (counted from 0) of a year.
\<close>

definition md_of :: "bool \<Rightarrow> int \<Rightarrow> int \<times> int" where
  "md_of leapyear n =
     (let mth = (n + 50) div 32;
          preceding = DAYS_BEFORE_MONTH ! nat (mth - 1)
                      + (if mth > 2 \<and> leapyear then 1 else 0)
      in if preceding > n
         then (let mth' = mth - 1;
                   preceding' = preceding - (DAYS_IN_MONTH ! nat (mth' - 1)
                                  + (if mth' = 2 \<and> leapyear then 1 else 0))
               in (mth', n - preceding' + 1))
         else (mth, n - preceding + 1))"

section \<open>Durations and instants\<close>

text \<open>
  A \<open>timedelta\<close> is an exact count of microseconds; the library normalises it to days,
  seconds and microseconds and refuses a day count beyond 999999999 in magnitude.
\<close>

type_synonym timedelta = int

definition US_PER_SECOND :: int where "US_PER_SECOND = 1000000"
definition US_PER_DAY :: int where "US_PER_DAY = 86400000000"

definition timedelta :: "int \<Rightarrow> int \<Rightarrow> int \<Rightarrow> int \<Rightarrow> error + timedelta" where
  \<comment> \<open>\<open>timedelta(days=d, seconds=s, minutes=m, hours=h)\<close>\<close>
  "timedelta d s m h =
     (let us = (((d * 24 + h) * 60 + m) * 60 + s) * US_PER_SECOND
      in if \<bar>us div US_PER_DAY\<bar> \<le> 999999999 then Inr us else Inl OverflowError)"

text \<open>
  A \<open>datetime\<close> holds its calendar fields and, when it is timezone-aware, the UTC
  offset of its (fixed offset) \<open>tzinfo\<close>.
\<close>

record datetime =
  year :: int
  month :: int
  day :: int
  hour :: int
  minute :: int
  second :: int
  microsecond :: int
  tzinfo :: "timedelta option"

definition valid_datetime :: "datetime \<Rightarrow> bool" where
  "valid_datetime dt =
     (MINYEAR \<le> year dt \<and> year dt \<le> MAXYEAR \<and> 1 \<le> month dt \<and> month dt \<le> 12
      \<and> 1 \<le> day dt \<and> day dt \<le> days_in_month (year dt) (month dt)
      \<and> 0 \<le> hour dt \<and> hour dt < 24 \<and> 0 \<le> minute dt \<and> minute dt < 60
      \<and> 0 \<le> second dt \<and> second dt < 60
      \<and> 0 \<le> microsecond dt \<and> microsecond dt < US_PER_SECOND
      \<and> (case tzinfo dt of None \<Rightarrow> True
          | Some off \<Rightarrow> - US_PER_DAY < off \<and> off < US_PER_DAY))"

definition tz_ok :: "timedelta option \<Rightarrow> bool" where
  \<comment> \<open>the offset of a \<open>timezone\<close> lies strictly within a day\<close>
  "tz_ok tz = (case tz of None \<Rightarrow> True | Some off \<Rightarrow> - US_PER_DAY < off \<and> off < US_PER_DAY)"

definition mk_datetime ::
  "int \<Rightarrow> int \<Rightarrow> int \<Rightarrow> int \<Rightarrow> int \<Rightarrow> int \<Rightarrow> int \<Rightarrow> timedelta option \<Rightarrow> datetime option" where
  \<comment> \<open>the constructor, which checks every field; \<open>None\<close> is its \<open>ValueError\<close>\<close>
  "mk_datetime y m d hh mm ss us tz =
     (let dt = \<lparr>year = y, month = m, day = d, hour = hh, minute = mm, second = ss,
                microsecond = us, tzinfo = tz\<rparr>
      in if valid_datetime dt then Some dt else None)"

definition local_us :: "datetime \<Rightarrow> int" where
  \<comment> \<open>microseconds of the wall-clock reading since the start of ordinal 0\<close>
  "local_us dt =
     ymd2ord (year dt) (month dt) (day dt) * US_PER_DAY
     + ((hour dt * 60 + minute dt) * 60 + second dt) * US_PER_SECOND + microsecond dt"

definition instant :: "datetime \<Rightarrow> int" where
  \<comment> \<open>the point in time of an aware datetime, as UTC microseconds\<close>
  "instant dt = local_us dt - (case tzinfo dt of None \<Rightarrow> 0 | Some off \<Rightarrow> off)"

definition of_local_us :: "int \<Rightarrow> timedelta option \<Rightarrow> datetime" where
  "of_local_us t tz =
     (let (y, m, d) = ord2ymd (t div US_PER_DAY);
          r = t mod US_PER_DAY;
          s = r div US_PER_SECOND
      in \<lparr>year = y, month = m, day = d, hour = s div 3600, minute = s mod 3600 div 60,
          second = s mod 60, microsecond = r mod US_PER_SECOND, tzinfo = tz\<rparr>)"

definition datetime_sub :: "datetime \<Rightarrow> timedelta \<Rightarrow> error + datetime" where
  \<comment> \<open>\<open>dt - delta\<close>: the result must fall on an ordinal of the calendar\<close>
  "datetime_sub dt delta =
     (let t = local_us dt - delta; days = t div US_PER_DAY
      in if 0 < days \<and> days \<le> MAXORDINAL then Inr (of_local_us t (tzinfo dt))
         else Inl OverflowError)"

definition astimezone_utc :: "datetime \<Rightarrow> error + datetime" where
  \<comment> \<open>\<open>dt.astimezone(timezone.utc)\<close>. Every call in the program comes after a check
      that \<open>tzinfo\<close> is set; a naive value would be read as local time, which is not
      modelled.\<close>
  "astimezone_utc dt =
     (case tzinfo dt of
        None \<Rightarrow> Inl (ValueError ''naive datetime'')
      | Some off \<Rightarrow>
          if off = 0 then Inr dt
          else bind_err (datetime_sub dt off) (\<lambda>u. Inr (u\<lparr>tzinfo := Some 0\<rparr>)))"

text \<open>
  \<open>strftime\<close> hands its format to the C library. The program runs on Linux only, and
  there (CPython 3.11 with glibc) \<open>%Y\<close> prints the year as it is, without padding: 999
  is \<open>999\<close>. The other fields have two digits.
\<close>

definition strftime_Y :: "int \<Rightarrow> string" where
  "strftime_Y y = digits (nat y)"

definition strftime_since :: "datetime \<Rightarrow> string" where
  \<comment> \<open>\<open>dt.strftime("%Y-%m-%d %H:%M:%S UTC")\<close>\<close>
  "strftime_since dt =
     strftime_Y (year dt) @ ''-'' @ zpad 2 (month dt) @ ''-'' @ zpad 2 (day dt) @ '' ''
     @ zpad 2 (hour dt) @ '':'' @ zpad 2 (minute dt) @ '':'' @ zpad 2 (second dt) @ '' UTC''"

text \<open>
  The pattern \<open>YYYY-MM-DD HH:MM:SS UTC\<close> of the specification, position by position:
  a decimal digit or a literal character.
\<close>

datatype pat = Digit | Lit char

definition pat_ok :: "pat \<Rightarrow> char \<Rightarrow> bool" where
  "pat_ok p c = (case p of Digit \<Rightarrow> isdigit c | Lit x \<Rightarrow> c = x)"

definition SINCE_PATTERN :: "pat list" where
  "SINCE_PATTERN =
     [Digit, Digit, Digit, Digit, Lit (CHR ''-''), Digit, Digit, Lit (CHR ''-''), Digit, Digit,
      Lit (CHR '' ''), Digit, Digit, Lit (CHR '':''), Digit, Digit, Lit (CHR '':''), Digit, Digit,
      Lit (CHR '' ''), Lit (CHR ''U''), Lit (CHR ''T''), Lit (CHR ''C'')]"

definition matches :: "pat list \<Rightarrow> string \<Rightarrow> bool" where
  "matches ps t = list_all2 pat_ok ps t"

text \<open>
  The points in time that a \<open>datetime\<close> in UTC can hold: from 0001-01-01T00:00:00 to
  the last microsecond of 9999-12-31.
\<close>

definition representable :: "int \<Rightarrow> bool" where
  "representable t = (US_PER_DAY \<le> t \<and> t < (MAXORDINAL + 1) * US_PER_DAY)"

text \<open>
  The duration of the specification, \<open>duration(n, unit)\<close>, in microseconds: \<open>n\<close>
  seconds, minutes, hours or days, the unit letter in either case.
\<close>

definition unit_seconds :: "char \<Rightarrow> int" where
  "unit_seconds u =
     (if lower u = CHR ''s'' then 1 else if lower u = CHR ''m'' then 60
      else if lower u = CHR ''h'' then 3600 else 86400)"

definition duration_us :: "int \<Rightarrow> char \<Rightarrow> int" where
  "duration_us n u = n * unit_seconds u * US_PER_SECOND"

definition format_offset :: "timedelta \<Rightarrow> string" where
  \<comment> \<open>the UTC offset as \<open>isoformat\<close> prints it: sign, \<open>HH:MM\<close>, then seconds and
      microseconds when they are not zero\<close>
  "format_offset off =
     (let a = \<bar>off\<bar>;
          hh = a div (3600 * US_PER_SECOND);
          r = a mod (3600 * US_PER_SECOND);
          mm = r div (60 * US_PER_SECOND);
          ss = r mod (60 * US_PER_SECOND)
      in (if off < 0 then ''-'' else ''+'') @ zpad 2 hh @ '':'' @ zpad 2 mm
         @ (if ss \<noteq> 0
            then '':'' @ zpad 2 (ss div US_PER_SECOND)
                 @ (if ss mod US_PER_SECOND \<noteq> 0 then ''.'' @ zpad 6 (ss mod US_PER_SECOND)
                    else [])
            else []))"

definition isoformat :: "datetime \<Rightarrow> string" where
  \<comment> \<open>\<open>dt.isoformat()\<close>\<close>
  "isoformat dt =
     zpad 4 (year dt) @ ''-'' @ zpad 2 (month dt) @ ''-'' @ zpad 2 (day dt) @ ''T''
     @ zpad 2 (hour dt) @ '':'' @ zpad 2 (minute dt) @ '':'' @ zpad 2 (second dt)
     @ (if microsecond dt \<noteq> 0 then ''.'' @ zpad 6 (microsecond dt) else [])
     @ (case tzinfo dt of None \<Rightarrow> [] | Some off \<Rightarrow> format_offset off)"

section \<open>The library's parser of ISO datetimes\<close>

text \<open>
  \<open>datetime.fromisoformat\<close> belongs to the standard library; the model follows the
  parser of CPython 3.11 (\<open>Modules/_datetimemodule.c\<close>) step by step. That parser
  reads the UTF-8 encoding of the string as a buffer of bytes closed by a zero byte,
  which it also takes for the end of a component. A date is \<open>YYYY-MM-DD\<close>,
  \<open>YYYYMMDD\<close>, \<open>YYYY-Www[-D]\<close> or \<open>YYYYWww[D]\<close>; after one separator character comes
  \<open>HH[:MM[:SS]]\<close>, with or without colons, a fraction after a point or a comma, and an
  offset after \<open>Z\<close>, \<open>+\<close> or \<open>-\<close>. \<open>None\<close> stands for the \<open>ValueError\<close> of the parser.
\<close>

type_synonym bytes = "nat list"

definition utf8_encode :: "string \<Rightarrow> bytes" where
  \<comment> \<open>code points below 128 are one byte, the others (below 256) two\<close>
  "utf8_encode s =
     concat (map (\<lambda>c. let n = (of_char c :: nat) in
                        if n < 128 then [n] else [192 + n div 64, 128 + n mod 64]) s)"

definition byte_at :: "bytes \<Rightarrow> nat \<Rightarrow> nat" where
  \<comment> \<open>\<open>p[i]\<close>; the byte after the last one is zero\<close>
  "byte_at b i = (if i < length b then b ! i else 0)"

definition is_digit :: "nat \<Rightarrow> bool" where
  "is_digit c = (48 \<le> c \<and> c \<le> 57)"

fun parse_digits :: "bytes \<Rightarrow> nat \<Rightarrow> nat \<Rightarrow> int \<Rightarrow> (int \<times> nat) option" where
  \<comment> \<open>\<open>parse_digits(ptr, var, num_digits)\<close>: the value read and the position after it\<close>
  "parse_digits b p 0 acc = Some (acc, p)"
| "parse_digits b p (Suc n) acc =
     (if is_digit (byte_at b p) then parse_digits b (Suc p) n (acc * 10 + (int (byte_at b p) - 48))
      else None)"

definition find_isoformat_datetime_separator :: "bytes \<Rightarrow> nat option" where
  "find_isoformat_datetime_separator b =
     (let len = length b in
      if len = 7 then Some 7
      else if byte_at b 4 = 45 then
        (if byte_at b 5 = 87 then
           (if len < 8 then None
            else if 8 < len \<and> byte_at b 8 = 45 then
              (if len = 9 then None
               else if 10 < len \<and> is_digit (byte_at b 10) then Some 8
               else Some 10)
            else Some 8)
         else Some 10)
      else if byte_at b 4 = 87 then
        (let idx = 7 + length (takeWhile is_digit (drop 7 b)) in
         if idx < 9 then Some idx else if idx mod 2 = 0 then Some 7 else Some 8)
      else Some 8)"

definition weekday :: "int \<Rightarrow> int \<Rightarrow> int \<Rightarrow> int" where
  "weekday y m d = (ymd2ord y m d + 6) mod 7"

definition iso_week1_monday :: "int \<Rightarrow> int" where
  "iso_week1_monday y =
     (let first_day = ymd2ord y 1 1;
          first_weekday = (first_day + 6) mod 7;
          week1_monday = first_day - first_weekday
      in if 3 < first_weekday then week1_monday + 7 else week1_monday)"

definition iso_to_ymd :: "int \<Rightarrow> int \<Rightarrow> int \<Rightarrow> (int \<times> int \<times> int) option" where
  \<comment> \<open>the day of an ISO week date; a day outside the years 1 to 9999 is refused by the
      constructor\<close>
  "iso_to_ymd iso_year iso_week iso_day =
     (if iso_year < MINYEAR then None
      else if (iso_week \<le> 0 \<or> 53 \<le> iso_week)
              \<and> \<not> (iso_week = 53
                   \<and> (weekday iso_year 1 1 = 3 \<or> (weekday iso_year 1 1 = 2 \<and> is_leap iso_year)))
      then None
      else if iso_day \<le> 0 \<or> 8 \<le> iso_day then None
      else (let n = iso_week1_monday iso_year + (iso_week - 1) * 7 + iso_day - 1
            in if n < 1 \<or> MAXORDINAL < n then None else Some (ord2ymd n)))"

definition parse_isoformat_date :: "bytes \<Rightarrow> nat \<Rightarrow> (int \<times> int \<times> int) option" where
  "parse_isoformat_date b len =
     (case parse_digits b 0 4 0 of
        None \<Rightarrow> None
      | Some (y, p0) \<Rightarrow>
          (let uses_separator = (byte_at b p0 = 45);
               p = (if uses_separator then p0 + 1 else p0)
           in if byte_at b p = 87 then
                (case parse_digits b (p + 1) 2 0 of
                   None \<Rightarrow> None
                 | Some (iso_week, p1) \<Rightarrow>
                     if p1 < len then
                       (if uses_separator \<and> byte_at b p1 \<noteq> 45 then None
                        else (case parse_digits b (if uses_separator then p1 + 1 else p1) 1 0 of
                                None \<Rightarrow> None
                              | Some (iso_day, p2) \<Rightarrow> iso_to_ymd y iso_week iso_day))
                     else iso_to_ymd y iso_week 1)
              else
                (case parse_digits b p 2 0 of
                   None \<Rightarrow> None
                 | Some (m, p1) \<Rightarrow>
                     if uses_separator \<and> byte_at b p1 \<noteq> 45 then None
                     else (case parse_digits b (if uses_separator then p1 + 1 else p1) 2 0 of
                             None \<Rightarrow> None
                           | Some (d, p2) \<Rightarrow> Some (y, m, d)))))"

text \<open>
  \<open>parse_hh_mm_ss_ff\<close> returns the four numbers and its return code: 0 when it stopped
  at a zero byte, 1 when something follows; \<open>None\<close> is a negative code. \<open>hms_loop\<close> is
  its \<open>for\<close> loop over hour, minute and second, \<open>n\<close> rounds before the end: it
  either returns, or leaves the position where the fraction is read.
\<close>

datatype hms = Hms_error | Hms_return "int list" nat | Hms_fraction "int list" nat

fun hms_loop :: "bytes \<Rightarrow> nat \<Rightarrow> nat \<Rightarrow> nat \<Rightarrow> bool \<Rightarrow> int list \<Rightarrow> hms" where
  "hms_loop b p_end 0 p has_separator vals = Hms_fraction vals p"
| "hms_loop b p_end (Suc n) p has_separator vals =
     (case parse_digits b p 2 0 of
        None \<Rightarrow> Hms_error
      | Some (v, p1) \<Rightarrow>
          (let c = byte_at b p1;
               hs = (if n = 2 then c = 58 else has_separator)
           in if p_end \<le> p1 + 1 then Hms_return (vals @ [v]) (if c \<noteq> 0 then 1 else 0)
              else if hs \<and> c = 58 then hms_loop b p_end n (p1 + 1) hs (vals @ [v])
              else if c = 46 \<or> c = 44 then Hms_fraction (vals @ [v]) (p1 + 1)
              else if \<not> hs then hms_loop b p_end n p1 hs (vals @ [v])
              else Hms_error))"

definition hms_field :: "int list \<Rightarrow> nat \<Rightarrow> int" where
  "hms_field vals i = (if i < length vals then vals ! i else 0)"

definition parse_hh_mm_ss_ff ::
  "bytes \<Rightarrow> nat \<Rightarrow> nat \<Rightarrow> (int \<times> int \<times> int \<times> int \<times> nat) option" where
  "parse_hh_mm_ss_ff b tstr p_end =
     (case hms_loop b p_end 3 tstr True [] of
        Hms_error \<Rightarrow> None
      | Hms_return vals rv \<Rightarrow> Some (hms_field vals 0, hms_field vals 1, hms_field vals 2, 0, rv)
      | Hms_fraction vals p \<Rightarrow>
          (let to_parse = min 6 (p_end - p) in
           case parse_digits b p to_parse 0 of
             None \<Rightarrow> None
           | Some (us, p1) \<Rightarrow>
               (let p2 = p1 + length (takeWhile is_digit (drop p1 b))
                in Some (hms_field vals 0, hms_field vals 1, hms_field vals 2, us * 10 ^ (6 - to_parse),
                         if byte_at b p2 \<noteq> 0 then 1 else 0))))"

definition is_tz_char :: "nat \<Rightarrow> bool" where
  "is_tz_char c = (c = 90 \<or> c = 43 \<or> c = 45)"

definition find_tzinfo_pos :: "bytes \<Rightarrow> nat \<Rightarrow> nat \<Rightarrow> nat" where
  \<comment> \<open>the \<open>do ... while (++tzinfo_pos < p_end)\<close> loop: the first \<open>Z\<close>, \<open>+\<close> or \<open>-\<close>
      from \<open>p\<close> on, else the end\<close>
  "find_tzinfo_pos b p p_end =
     (if is_tz_char (byte_at b p) then p
      else (let k = length (takeWhile (\<lambda>c. \<not> is_tz_char c) (take (p_end - (p + 1)) (drop (p + 1) b)))
            in if p + 1 < p_end then p + 1 + k else p + 1))"

definition parse_isoformat_time ::
  "bytes \<Rightarrow> nat \<Rightarrow> nat \<Rightarrow> (int \<times> int \<times> int \<times> int \<times> (int \<times> int) option) option" where
  \<comment> \<open>the time from \<open>p\<close> to \<open>p_end\<close>, with the offset in seconds and its microseconds\<close>
  "parse_isoformat_time b p p_end =
     (let tzinfo_pos = find_tzinfo_pos b p p_end in
      case parse_hh_mm_ss_ff b p tzinfo_pos of
        None \<Rightarrow> None
      | Some (hh, mm, ss, us, rv) \<Rightarrow>
          if tzinfo_pos = p_end then (if rv = 1 then None else Some (hh, mm, ss, us, None))
          else if byte_at b tzinfo_pos = 90 then
            (if byte_at b (tzinfo_pos + 1) \<noteq> 0 then None else Some (hh, mm, ss, us, Some (0, 0)))
          else
            (let tzsign = (if byte_at b tzinfo_pos = 45 then - 1 else 1 :: int) in
             case parse_hh_mm_ss_ff b (tzinfo_pos + 1) p_end of
               None \<Rightarrow> None
             | Some (th, tm, ts, tus, rv') \<Rightarrow>
                 if rv' \<noteq> 0 then None
                 else Some (hh, mm, ss, us,
                            Some (tzsign * (th * 3600 + tm * 60 + ts), tzsign * tus))))"

definition tzinfo_from_isoformat_results :: "(int \<times> int) option \<Rightarrow> timedelta option option" where
  \<comment> \<open>no offset, UTC for an offset of zero seconds whatever its microseconds, else a
      \<open>timezone\<close>, which must lie strictly within a day\<close>
  "tzinfo_from_isoformat_results r =
     (case r of
        None \<Rightarrow> Some None
      | Some (tzoffset, tzusec) \<Rightarrow>
          if tzoffset = 0 then Some (Some 0)
          else (let off = tzoffset * US_PER_SECOND + tzusec
                in if - US_PER_DAY < off \<and> off < US_PER_DAY then Some (Some off) else None))"

definition separator_width :: "nat \<Rightarrow> nat" where
  \<comment> \<open>the bytes of the separator character, from its first byte\<close>
  "separator_width c =
     (if c < 128 then 1 else if c div 16 = 14 then 3 else if c div 16 = 15 then 4 else 2)"

definition fromisoformat :: "string \<Rightarrow> datetime option" where
  "fromisoformat date_string =
     (let b = utf8_encode date_string; len = length b in
      case find_isoformat_datetime_separator b of
        None \<Rightarrow> None
      | Some separator_location \<Rightarrow>
          (case parse_isoformat_date b separator_location of
             None \<Rightarrow> None
           | Some (y, m, d) \<Rightarrow>
               if separator_location < len then
                 (case parse_isoformat_time b
                         (separator_location + separator_width (byte_at b separator_location)) len of
                    None \<Rightarrow> None
                  | Some (hh, mm, ss, us, tz) \<Rightarrow>
                      (case tzinfo_from_isoformat_results tz of
                         None \<Rightarrow> None
                       | Some tzi \<Rightarrow> mk_datetime y m d hh mm ss us tzi))
               else mk_datetime y m d 0 0 0 0 None))"

section \<open>Range Resolver: \<open>services/timeparse.py\<close>\<close>

record TimeRange =
  range_input :: string
  since_utc :: datetime
  since_arg :: string

definition format_journalctl_since_arg :: "datetime \<Rightarrow> error + string" where
  "format_journalctl_since_arg dt_utc =
     (if tzinfo dt_utc = None then Inl (ValueError ''since_utc must be timezone-aware'')
      else bind_err (astimezone_utc dt_utc) (\<lambda>dt. Inr (strftime_since dt)))"

definition unit_delta :: "char \<Rightarrow> int \<Rightarrow> error + timedelta" where
  \<comment> \<open>the \<open>if unit == ... elif ... else raise\<close> chain of \<open>parse_range\<close>\<close>
  "unit_delta u amount =
     (if u = CHR ''s'' then timedelta 0 amount 0 0
      else if u = CHR ''m'' then timedelta 0 0 amount 0
      else if u = CHR ''h'' then timedelta 0 0 0 amount
      else if u = CHR ''d'' then timedelta amount 0 0 0
      else Inl (ValueError (''unsupported unit: '' @ [u])))"

definition ISO_MSG :: string where
  "ISO_MSG = ''invalid range; expected last:<n><s|m|h|d> or ISO datetime like 2025-12-30T12:00:00Z''"

definition TZ_MSG :: string where
  "TZ_MSG = ''ISO datetime must include timezone (e.g., '' @ [CHR 0x27] @ ''Z'' @ [CHR 0x27] @ '')''"

definition iso_string :: "string \<Rightarrow> string" where
  \<comment> \<open>\<open>iso = value\<close>, with a final \<open>Z\<close> replaced by \<open>+00:00\<close>\<close>
  "iso_string v = (if endswith v ''Z'' then butlast v @ ''+00:00'' else v)"

text \<open>
  \<open>parse_range_with\<close> is the body of \<open>parse_range\<close> with the library's parser as its
  first argument, so that what the function does with the parser's answer can be
  stated for every answer; \<open>parse_range\<close> is the function of the program, which calls
  \<open>datetime.fromisoformat\<close>.
\<close>

definition parse_range_with ::
  "(string \<Rightarrow> datetime option) \<Rightarrow> string \<Rightarrow> datetime \<Rightarrow> error + TimeRange" where
  "parse_range_with fromiso range_value now_utc =
     (if range_value = [] \<or> strip range_value = []
      then Inl (ValueError ''range must be a non-empty string'')
      else
        (let v = strip range_value in
         if tzinfo now_utc = None then Inl (ValueError ''now_utc must be timezone-aware'')
         else
           (case rel_match v of
              Some (ds, u) \<Rightarrow>
                bind_err (to_int ds) (\<lambda>amount.
                 let unit = lower u in
                 if amount \<le> 0 then Inl (ValueError ''relative range amount must be > 0'')
                 else
                   bind_err (unit_delta unit amount) (\<lambda>delta.
                   bind_err (astimezone_utc now_utc) (\<lambda>n.
                   bind_err (datetime_sub n delta) (\<lambda>since.
                   bind_err (format_journalctl_since_arg since) (\<lambda>a.
                     Inr \<lparr>range_input = v, since_utc = since, since_arg = a\<rparr>)))))
            | None \<Rightarrow>
                (case fromiso (iso_string v) of
                   None \<Rightarrow> Inl (ValueError ISO_MSG)
                 | Some dt \<Rightarrow>
                     if tzinfo dt = None then Inl (ValueError TZ_MSG)
                     else
                       bind_err (astimezone_utc dt) (\<lambda>dt_utc.
                       bind_err (format_journalctl_since_arg dt_utc) (\<lambda>a.
                         Inr \<lparr>range_input = v, since_utc = dt_utc, since_arg = a\<rparr>))))))"

definition parse_range :: "string \<Rightarrow> datetime \<Rightarrow> error + TimeRange" where
  \<comment> \<open>\<open>parse_range(range_value, now_utc=now)\<close>; without the argument \<open>now\<close> is the
      reading of the clock in UTC\<close>
  "parse_range range_value now_utc = parse_range_with fromisoformat range_value now_utc"

section \<open>Log Source Adapter: \<open>services/journal.py\<close>\<close>

text \<open>
  \<open>_run_journalctl\<close> builds its result from what its call of \<open>subprocess.run\<close>
  returns; that call is the parameter \<open>run\<close>, the command its argument. Below,
  \<open>journalctl_run\<close> is the call itself, with its keyword arguments.
\<close>

record CompletedProcess =
  proc_returncode :: int
  proc_stdout :: "string option"
  proc_stderr :: "string option"

record CaptureResult =
  ok :: bool
  command :: "string list"
  stdout :: string
  stderr :: string
  returncode :: int

type_synonym runner = "string list \<Rightarrow> error + CompletedProcess"

definition or_empty :: "string option \<Rightarrow> string" where
  \<comment> \<open>\<open>x or ""\<close>\<close>
  "or_empty x = (case x of None \<Rightarrow> [] | Some t \<Rightarrow> t)"

definition run_journalctl :: "runner \<Rightarrow> string list \<Rightarrow> error + CaptureResult" where
  "run_journalctl run args =
     (let cmd = ''journalctl'' # args in
      case run cmd of
        Inl e \<Rightarrow> Inl e
      | Inr proc \<Rightarrow>
          Inr \<lparr>ok = (proc_returncode proc = 0), command = cmd,
               stdout = or_empty (proc_stdout proc), stderr = or_empty (proc_stderr proc),
               returncode = proc_returncode proc\<rparr>)"

definition capture_kernel :: "runner \<Rightarrow> string \<Rightarrow> error + CaptureResult" where
  "capture_kernel run since =
     run_journalctl run [''-k'', ''--since'', since, ''--no-pager'', ''--output=short-iso'']"

definition capture_system :: "runner \<Rightarrow> string \<Rightarrow> error + CaptureResult" where
  "capture_system run since =
     run_journalctl run [''--since'', since, ''--no-pager'', ''--output=short-iso'']"

text \<open>
  What \<open>subprocess.run\<close> does with the program it is given. The operating system
  either cannot start the program, or the program ends with an exit code after it wrote
  bytes to its two pipes. With \<open>text=True\<close> the bytes of each pipe are decoded in the
  locale's encoding before \<open>run\<close> looks at the exit code: bytes that do not decode raise
  \<open>UnicodeDecodeError\<close>, whatever the exit code. Then \<open>check=True\<close> raises
  \<open>CalledProcessError\<close> for an exit code other than zero, and \<open>check=False\<close> returns the
  \<open>CompletedProcess\<close>. \<open>journalctl_run\<close> is the call that \<open>_run_journalctl\<close> makes,
  \<open>run(command, text=True, capture_output=True, check=False)\<close>.
\<close>

datatype piped = Decoded string | Undecodable

datatype invocation = Not_started error | Exited int piped piped

type_synonym program = "string list \<Rightarrow> invocation"

definition subprocess_run :: "program \<Rightarrow> string list \<Rightarrow> bool \<Rightarrow> error + CompletedProcess" where
  "subprocess_run prog cmd check =
     (case prog cmd of
        Not_started e \<Rightarrow> Inl e
      | Exited rc out err \<Rightarrow>
          (case out of
             Undecodable \<Rightarrow> Inl UnicodeDecodeError
           | Decoded so \<Rightarrow>
               (case err of
                  Undecodable \<Rightarrow> Inl UnicodeDecodeError
                | Decoded se \<Rightarrow>
                    if check \<and> rc \<noteq> 0 then Inl (CalledProcessError rc)
                    else Inr \<lparr>proc_returncode = rc, proc_stdout = Some so, proc_stderr = Some se\<rparr>)))"

definition journalctl_run :: "program \<Rightarrow> runner" where
  "journalctl_run prog = (\<lambda>command. subprocess_run prog command False)"

section \<open>The file system\<close>

text \<open>
  A path is the list of its components, read from one fixed starting directory; the
  file system maps the paths that exist to a directory or to a file with its content.
  A component \<open>..\<close> steps to the parent, as the operating system resolves it. Names
  are unbounded, every directory is writable and there are no links.
\<close>

type_synonym path = "string list"

datatype node = Dir | File string

type_synonym filesystem = "path \<rightharpoonup> node"

definition node_at :: "filesystem \<Rightarrow> path \<Rightarrow> node option" where
  "node_at fs p = (if p = [] then Some Dir else fs p)"

fun walk :: "filesystem \<Rightarrow> path \<Rightarrow> string list \<Rightarrow> error + path" where
  "walk fs cur [] = Inr cur"
| "walk fs cur (c # cs) =
     (if c = ''..'' then walk fs (butlast cur) cs
      else (case node_at fs (cur @ [c]) of
              None \<Rightarrow> Inl FileNotFoundError
            | Some (File t) \<Rightarrow> Inl NotADirectoryError
            | Some Dir \<Rightarrow> walk fs (cur @ [c]) cs))"

definition has_nul :: "path \<Rightarrow> bool" where
  "has_nul p = (\<exists>c \<in> set p. CHR 0x00 \<in> set c)"

definition NUL_MSG :: string where "NUL_MSG = ''embedded null byte''"

definition os_mkdir :: "filesystem \<Rightarrow> path \<Rightarrow> error + filesystem" where
  "os_mkdir fs p =
     (if has_nul p then Inl (ValueError NUL_MSG)
      else if p = [] then Inl FileExistsError
      else (case walk fs [] (butlast p) of
              Inl e \<Rightarrow> Inl e
            | Inr d \<Rightarrow>
                if last p = ''..'' \<or> node_at fs (d @ [last p]) \<noteq> None then Inl FileExistsError
                else Inr (fs(d @ [last p] \<mapsto> Dir))))"

definition is_dir :: "filesystem \<Rightarrow> path \<Rightarrow> bool" where
  "is_dir fs p = (\<not> has_nul p \<and> (case walk fs [] p of Inl e \<Rightarrow> False | Inr d \<Rightarrow> True))"

text \<open>
  \<open>os_mkdir\<close> and \<open>write_text\<close> are single system calls: they change the file system
  or fail and leave it as it was. \<open>Path.mkdir\<close> with \<open>parents=True\<close> is a sequence of
  them, so it returns the file system it reached together with its result.
\<close>

function mkdir ::
  "bool \<Rightarrow> bool \<Rightarrow> path \<Rightarrow> filesystem \<Rightarrow> (error + unit) \<times> filesystem" where
  "mkdir parents exist_ok p fs =
     (case os_mkdir fs p of
        Inr fs' \<Rightarrow> (Inr (), fs')
      | Inl FileNotFoundError \<Rightarrow>
          if \<not> parents \<or> p = [] then (Inl FileNotFoundError, fs)
          else (case mkdir True True (butlast p) fs of
                  (Inl e, fs1) \<Rightarrow> (Inl e, fs1)
                | (Inr u, fs1) \<Rightarrow> mkdir False exist_ok p fs1)
      | Inl (ValueError m) \<Rightarrow> (Inl (ValueError m), fs)
      | Inl e \<Rightarrow> if \<not> exist_ok \<or> \<not> is_dir fs p then (Inl e, fs) else (Inr (), fs))"
  by pat_completeness auto
termination
  by (relation "measure (\<lambda>(parents, exist_ok, p, fs). 2 * length p + (if parents then 1 else 0))")
     auto

declare mkdir.simps [simp del]

definition write_text :: "path \<Rightarrow> string \<Rightarrow> filesystem \<Rightarrow> error + filesystem" where
  \<comment> \<open>\<open>path.write_text(content, encoding="utf-8")\<close>: creates or truncates the file\<close>
  "write_text p content fs =
     (if has_nul p then Inl (ValueError NUL_MSG)
      else if p = [] then Inl IsADirectoryError
      else (case walk fs [] (butlast p) of
              Inl e \<Rightarrow> Inl e
            | Inr d \<Rightarrow>
                if last p = ''..'' \<or> node_at fs (d @ [last p]) = Some Dir
                then Inl IsADirectoryError
                else Inr (fs(d @ [last p] \<mapsto> File content))))"

fun split_on :: "char \<Rightarrow> string \<Rightarrow> string list" where
  "split_on sep [] = [[]]"
| "split_on sep (c # cs) =
     (if c = sep then [] # split_on sep cs
      else (case split_on sep cs of [] \<Rightarrow> [[c]] | w # ws \<Rightarrow> (c # w) # ws))"

definition joinpath :: "path \<Rightarrow> string \<Rightarrow> path" where
  \<comment> \<open>\<open>base / name\<close> for a relative \<open>name\<close>: empty and \<open>.\<close> components are dropped\<close>
  "joinpath base name = base @ filter (\<lambda>c. c \<noteq> [] \<and> c \<noteq> ''.'') (split_on (CHR ''/'') name)"

text \<open>
  Two relations between file systems that the properties are stated with. In a
  well-formed file system every entry lies in a directory; \<open>dirs_added fs fs'\<close> says
  that \<open>fs'\<close> is \<open>fs\<close> with some new directories and nothing else changed.
\<close>

definition wf_fs :: "filesystem \<Rightarrow> bool" where
  "wf_fs fs = (\<forall>q. fs q \<noteq> None \<longrightarrow> q \<noteq> [] \<and> node_at fs (butlast q) = Some Dir)"

definition dirs_added :: "filesystem \<Rightarrow> filesystem \<Rightarrow> bool" where
  "dirs_added fs fs' = (\<forall>q. fs' q = fs q \<or> (fs q = None \<and> fs' q = Some Dir))"

section \<open>JSON as \<open>json.dumps(payload, indent=2, sort_keys=True)\<close> writes it\<close>

datatype json = JString string | JBool bool | JArray "json list" | JObject "(string \<times> json) list"

definition hex_digit :: "nat \<Rightarrow> char" where
  "hex_digit n = (if n < 10 then char_of (48 + n) else char_of (87 + n))"

definition escape_char :: "char \<Rightarrow> string" where
  \<comment> \<open>the encoder with \<open>ensure_ascii\<close>: everything outside the range from the space to
      the tilde is escaped\<close>
  "escape_char c =
     (let n = (of_char c :: nat) in
      if c = CHR 0x22 then [CHR 0x5C, CHR 0x22]
      else if c = CHR 0x5C then [CHR 0x5C, CHR 0x5C]
      else if n = 10 then [CHR 0x5C, CHR ''n'']
      else if n = 13 then [CHR 0x5C, CHR ''r'']
      else if n = 9 then [CHR 0x5C, CHR ''t'']
      else if n = 12 then [CHR 0x5C, CHR ''f'']
      else if n = 8 then [CHR 0x5C, CHR ''b'']
      else if n < 32 \<or> 126 < n
        then [CHR 0x5C, CHR ''u'', CHR ''0'', CHR ''0'', hex_digit (n div 16), hex_digit (n mod 16)]
      else [c])"

definition encode_string :: "string \<Rightarrow> string" where
  "encode_string t = [CHR 0x22] @ concat (map escape_char t) @ [CHR 0x22]"

fun join :: "string \<Rightarrow> string list \<Rightarrow> string" where
  "join sep [] = []"
| "join sep [x] = x"
| "join sep (x # y # ys) = x @ sep @ join sep (y # ys)"

definition newline_indent :: "nat \<Rightarrow> string" where
  "newline_indent lvl = CHR 0x0A # replicate (2 * lvl) (CHR '' '')"

fun sort_keys :: "json \<Rightarrow> json" where
  "sort_keys (JString t) = JString t"
| "sort_keys (JBool b) = JBool b"
| "sort_keys (JArray xs) = JArray (map sort_keys xs)"
| "sort_keys (JObject kvs) = JObject (sort_key fst (map (\<lambda>kv. (fst kv, sort_keys (snd kv))) kvs))"

fun render :: "nat \<Rightarrow> json \<Rightarrow> string" where
  "render lvl (JString t) = encode_string t"
| "render lvl (JBool b) = (if b then ''true'' else ''false'')"
| "render lvl (JArray xs) =
     (if xs = [] then ''[]''
      else ''['' @ newline_indent (Suc lvl)
           @ join ('','' @ newline_indent (Suc lvl)) (map (render (Suc lvl)) xs)
           @ newline_indent lvl @ '']'')"
| "render lvl (JObject kvs) =
     (if kvs = [] then ''{}''
      else ''{'' @ newline_indent (Suc lvl)
           @ join ('','' @ newline_indent (Suc lvl))
               (map (\<lambda>kv. encode_string (fst kv) @ '': '' @ render (Suc lvl) (snd kv)) kvs)
           @ newline_indent lvl @ ''}'')"

definition dumps :: "json \<Rightarrow> string" where
  "dumps j = render 0 (sort_keys j)"

text \<open>
  What the specification calls sorted keys: in every object of the document, at every
  depth, the keys are in ascending order (of code points, as Python compares strings).
\<close>

fun keys_sorted :: "json \<Rightarrow> bool" where
  "keys_sorted (JString t) = True"
| "keys_sorted (JBool b) = True"
| "keys_sorted (JArray xs) = list_all keys_sorted xs"
| "keys_sorted (JObject kvs) = (sorted (map fst kvs) \<and> list_all (\<lambda>kv. keys_sorted (snd kv)) kvs)"

section \<open>Session Builder and Artifact Writer: \<open>services/archive.py\<close>\<close>

record SessionPaths =
  session_dir :: path
  sources_dir :: path
  report_path :: path
  manifest_path :: path

definition session_timestamp_utc :: "datetime \<Rightarrow> string" where
  \<comment> \<open>\<open>datetime.now(timezone.utc).strftime("%Y%m%dT%H%M%SZ")\<close> at the clock reading \<open>now\<close>\<close>
  "session_timestamp_utc now =
     strftime_Y (year now) @ zpad 2 (month now) @ zpad 2 (day now) @ ''T''
     @ zpad 2 (hour now) @ zpad 2 (minute now) @ zpad 2 (second now) @ ''Z''"

definition create_session ::
  "path \<Rightarrow> string option \<Rightarrow> datetime \<Rightarrow> filesystem \<Rightarrow> (error + SessionPaths) \<times> filesystem" where
  \<comment> \<open>\<open>create_session(archives_dir, timestamp=timestamp)\<close>; \<open>now\<close> is the clock reading
      that a missing timestamp is taken from\<close>
  "create_session archives_dir timestamp now fs =
     (let ts = (case timestamp of None \<Rightarrow> session_timestamp_utc now | Some t \<Rightarrow> t);
          sdir = joinpath archives_dir (''session-'' @ ts);
          srcs = joinpath sdir ''sources''
      in case mkdir True False srcs fs of
           (Inl e, fs') \<Rightarrow> (Inl e, fs')
         | (Inr u, fs') \<Rightarrow>
             (Inr \<lparr>session_dir = sdir, sources_dir = srcs,
                   report_path = joinpath sdir ''report.txt'',
                   manifest_path = joinpath sdir ''manifest.json''\<rparr>, fs'))"

definition write_json :: "path \<Rightarrow> json \<Rightarrow> filesystem \<Rightarrow> error + filesystem" where
  "write_json p payload fs = write_text p (dumps payload @ [CHR 0x0A]) fs"

type_synonym mapping = "(string \<times> string) list"

fun dict_set :: "string \<Rightarrow> 'v \<Rightarrow> (string \<times> 'v) list \<Rightarrow> (string \<times> 'v) list" where
  \<comment> \<open>\<open>d[k] = v\<close> on a dictionary in insertion order\<close>
  "dict_set k v [] = [(k, v)]"
| "dict_set k v ((k', v') # kvs) =
     (if k' = k then (k, v) # kvs else (k', v') # dict_set k v kvs)"

definition write_sources ::
  "path \<Rightarrow> string \<Rightarrow> string option \<Rightarrow> filesystem \<Rightarrow> (error + mapping) \<times> filesystem" where
  "write_sources srcs kernel_log system_log fs =
     (let kernel_name = ''journalctl-kernel.log'' in
      case write_text (joinpath srcs kernel_name) kernel_log fs of
        Inl e \<Rightarrow> (Inl e, fs)
      | Inr fs1 \<Rightarrow>
          (let m1 = dict_set ''journalctl_kernel'' kernel_name [] in
           case system_log of
             None \<Rightarrow> (Inr m1, fs1)
           | Some slog \<Rightarrow>
               (let system_name = ''journalctl-system.log'' in
                case write_text (joinpath srcs system_name) slog fs1 of
                  Inl e \<Rightarrow> (Inl e, fs1)
                | Inr fs2 \<Rightarrow> (Inr (dict_set ''journalctl_system'' system_name m1), fs2))))"

definition report_lines ::
  "string \<Rightarrow> string \<Rightarrow> string \<Rightarrow> string \<Rightarrow> mapping \<Rightarrow> string list \<Rightarrow> string list" where
  \<comment> \<open>the list \<open>lines\<close> that \<open>write_report\<close> builds\<close>
  "report_lines tool ver rng since_iso sources_mapping warnings =
     [tool @ '' v'' @ ver,
      ''Sprint 1 report (capture-only)'',
      [],
      ''range_input: '' @ rng,
      ''since_utc: '' @ since_iso,
      [],
      ''sources_written:'']
     @ map (\<lambda>kv. ''  - '' @ fst kv @ '': sources/'' @ snd kv) sources_mapping
     @ [[],
        ''notes:'',
        ''  - Sprint 1 captures logs only.'',
        ''  - Panic/anomaly detection arrives in Sprint 2.'']
     @ (if warnings \<noteq> [] then
          [[], ''warnings:'']
          @ map (\<lambda>w. ''  - '' @ w) warnings
          @ [[],
             ''permissions_hint:'',
             ''  - If journalctl capture failed, try running with sudo'',
             ''    or add your user to the systemd-journal group.'']
        else [])"

definition write_report ::
  "path \<Rightarrow> string \<Rightarrow> string \<Rightarrow> string \<Rightarrow> string \<Rightarrow> mapping \<Rightarrow> string list \<Rightarrow> filesystem
     \<Rightarrow> error + filesystem" where
  "write_report p tool ver rng since_iso sources_mapping warnings fs =
     write_text p
       (join [CHR 0x0A] (report_lines tool ver rng since_iso sources_mapping warnings) @ [CHR 0x0A])
       fs"

definition planned_features_payload :: "(string \<times> json) list" where
  "planned_features_payload =
     [(''panic_detection'', JString ''Sprint 2''),
      (''anomaly_metrics'', JString ''Sprint 2+''),
      (''zip_and_git_export'', JString ''Sprint 3+''),
      (''background_sessions'', JString ''Sprint 3+''),
      (''encryption'', JString ''Sprint 4+'')]"

definition manifest_payload ::
  "string \<Rightarrow> string \<Rightarrow> string \<Rightarrow> string \<Rightarrow> bool \<Rightarrow> mapping \<Rightarrow> string list \<Rightarrow> string list \<Rightarrow> json" where
  \<comment> \<open>the dictionary \<open>payload\<close> that \<open>write_manifest\<close> builds, in the order of its keys\<close>
  "manifest_payload tool ver rng since_iso kernel_only sources_mapping warnings errors =
     JObject
       [(''tool'', JString tool),
        (''version'', JString ver),
        (''range_input'', JString rng),
        (''since_utc'', JString since_iso),
        (''kernel_only'', JBool kernel_only),
        (''sources'', JObject (map (\<lambda>kv. (fst kv, JString (snd kv))) sources_mapping)),
        (''warnings'', JArray (map JString warnings)),
        (''errors'', JArray (map JString errors)),
        (''planned_features'', JObject planned_features_payload)]"

definition write_manifest ::
  "path \<Rightarrow> string \<Rightarrow> string \<Rightarrow> string \<Rightarrow> string \<Rightarrow> bool \<Rightarrow> mapping \<Rightarrow> string list \<Rightarrow> string list
     \<Rightarrow> filesystem \<Rightarrow> error + filesystem" where
  "write_manifest p tool ver rng since_iso kernel_only sources_mapping warnings errors fs =
     write_json p
       (manifest_payload tool ver rng since_iso kernel_only sources_mapping warnings errors) fs"

section \<open>Configuration and Capture Orchestrator: \<open>config.py\<close> and \<open>cli.py\<close>\<close>

record KerniclePaths =
  home_dir :: path
  archives_dir :: path

definition get_paths :: "path \<Rightarrow> filesystem \<Rightarrow> (error + KerniclePaths) \<times> filesystem" where
  \<comment> \<open>\<open>get_paths()\<close>, with \<open>Path.home()\<close> as its argument\<close>
  "get_paths home fs =
     (let hd' = joinpath home ''.kernicle''; ad = joinpath hd' ''archives'' in
      case mkdir True True ad fs of
        (Inl e, fs') \<Rightarrow> (Inl e, fs')
      | (Inr u, fs') \<Rightarrow> (Inr \<lparr>home_dir = hd', archives_dir = ad\<rparr>, fs'))"

definition int_str :: "int \<Rightarrow> string" where
  \<comment> \<open>\<open>str(n)\<close>\<close>
  "int_str n = (if n < 0 then ''-'' @ digits (nat (- n)) else digits (nat n))"

function replace :: "string \<Rightarrow> string \<Rightarrow> string \<Rightarrow> string" where
  \<comment> \<open>\<open>s.replace(old, new)\<close> for a non-empty \<open>old\<close>: left to right, without overlap\<close>
  "replace [] old new = []"
| "replace (c # cs) old new =
     (if old \<noteq> [] \<and> take (length old) (c # cs) = old
      then new @ replace (drop (length old) (c # cs)) old new
      else c # replace cs old new)"
  by pat_completeness auto
termination
  by (relation "measure (\<lambda>(s, old, new). length s)") auto

definition since_iso_of :: "datetime \<Rightarrow> error + string" where
  \<comment> \<open>\<open>tr.since_utc.astimezone(timezone.utc).isoformat().replace("+00:00", "Z")\<close>\<close>
  "since_iso_of since =
     bind_err (astimezone_utc since) (\<lambda>u. Inr (replace (isoformat u) ''+00:00'' ''Z''))"

definition capture_warning :: "string \<Rightarrow> CaptureResult \<Rightarrow> string" where
  \<comment> \<open>the message \<open>msg\<close> recorded for a capture whose \<open>ok\<close> is false; \<open>which\<close> is
      \<open>kernel\<close> or \<open>system\<close>\<close>
  "capture_warning which res =
     ''journalctl '' @ which @ '' capture failed (rc='' @ int_str (returncode res)
     @ ''). stderr: '' @ (if strip (stderr res) = [] then ''(empty)'' else strip (stderr res))"

record env =
  platform_system :: string
  home :: path
  version :: string
  now_range :: datetime
  now_session :: datetime
  journalctl :: runner

text \<open>
  The environment of one run: what \<open>platform.system()\<close> and \<open>Path.home()\<close> return, the
  package's \<open>__version__\<close>, the two readings of the clock (by \<open>parse_range\<close> and by
  \<open>create_session\<close>) and the behaviour of the external program. Console output is not
  modelled. \<open>capture_logs\<close> is the block of \<open>push\<close> between the creation of the
  session and the first write: it returns the kernel log, the system log when it was
  asked for, and the warnings.
\<close>

definition capture_logs ::
  "runner \<Rightarrow> string \<Rightarrow> bool \<Rightarrow> error + (string \<times> string option \<times> string list)" where
  "capture_logs run since kernel_only =
     (case capture_kernel run since of
        Inl e \<Rightarrow> Inl e
      | Inr kernel_res \<Rightarrow>
          (let warnings = (if \<not> ok kernel_res then [capture_warning ''kernel'' kernel_res] else [])
           in if \<not> kernel_only then
                (case capture_system run since of
                   Inl e \<Rightarrow> Inl e
                 | Inr sys_res \<Rightarrow>
                     Inr (stdout kernel_res, Some (stdout sys_res),
                          if \<not> ok sys_res then warnings @ [capture_warning ''system'' sys_res]
                          else warnings))
              else Inr (stdout kernel_res, None, warnings)))"

definition push :: "env \<Rightarrow> string \<Rightarrow> bool \<Rightarrow> filesystem \<Rightarrow> (error + unit) \<times> filesystem" where
  "push E rng kernel_only fs0 =
     (if map lower (platform_system E) \<noteq> ''linux'' then (Inl (Exit 2), fs0)
      else
        (case get_paths (home E) fs0 of
           (Inl e, fs1) \<Rightarrow> (Inl e, fs1)
         | (Inr paths, fs1) \<Rightarrow>
             (case parse_range rng (now_range E) of
                Inl (ValueError m) \<Rightarrow> (Inl (Exit 2), fs1)
              | Inl e \<Rightarrow> (Inl e, fs1)
              | Inr tr \<Rightarrow>
                  (case since_iso_of (since_utc tr) of
                     Inl e \<Rightarrow> (Inl e, fs1)
                   | Inr since_iso \<Rightarrow>
                       (case create_session (archives_dir paths) None (now_session E) fs1 of
                          (Inl e, fs2) \<Rightarrow> (Inl e, fs2)
                        | (Inr session, fs2) \<Rightarrow>
                            (case capture_logs (journalctl E) (since_arg tr) kernel_only of
                               Inl e \<Rightarrow> (Inl e, fs2)
                             | Inr (kernel_log, system_log, warnings) \<Rightarrow>
                                 (case write_sources (sources_dir session) kernel_log system_log fs2 of
                                    (Inl e, fs3) \<Rightarrow> (Inl e, fs3)
                                  | (Inr sources_mapping, fs3) \<Rightarrow>
                                      (case write_report (report_path session) ''kernicle''
                                              (version E) (range_input tr) since_iso
                                              sources_mapping warnings fs3 of
                                         Inl e \<Rightarrow> (Inl e, fs3)
                                       | Inr fs4 \<Rightarrow>
                                           (case write_manifest (manifest_path session) ''kernicle''
                                                   (version E) (range_input tr) since_iso kernel_only
                                                   sources_mapping warnings [] fs4 of
                                              Inl e \<Rightarrow> (Inl e, fs4)
                                            | Inr fs5 \<Rightarrow> (Inr (), fs5))))))))))"

section \<open>Properties of the calendar\<close>

lemma dby_decomp:
  fixes a b c d :: int
  assumes "0 \<le> b" "b \<le> 3" "0 \<le> c" "c \<le> 24" "0 \<le> d" "d \<le> 3"
  shows "days_before_year (400 * a + 100 * b + 4 * c + d + 1)
         = 146097 * a + 36524 * b + 1461 * c + 365 * d"
proof -
  define Y where "Y = 400 * a + 100 * b + 4 * c + d"
  have q4: "Y div 4 = 100 * a + 25 * b + c"
    by (rule int_div_pos_eq [where r = d]) (use assms in \<open>simp_all add: Y_def\<close>)
  have q100: "Y div 100 = 4 * a + b"
    by (rule int_div_pos_eq [where r = "4 * c + d"]) (use assms in \<open>simp_all add: Y_def\<close>)
  have q400: "Y div 400 = a"
    by (rule int_div_pos_eq [where r = "100 * b + 4 * c + d"]) (use assms in \<open>simp_all add: Y_def\<close>)
  have "days_before_year (Y + 1) = Y * 365 + Y div 4 - Y div 100 + Y div 400"
    by (simp add: days_before_year_def)
  also have "\<dots> = 146097 * a + 36524 * b + 1461 * c + 365 * d"
    unfolding q4 q100 q400 by (simp add: Y_def)
  finally show ?thesis by (simp add: Y_def)
qed

lemma leap_decomp:
  fixes a b c d :: int
  assumes "0 \<le> b" "b \<le> 3" "0 \<le> c" "c \<le> 24" "0 \<le> d" "d \<le> 3"
  shows "is_leap (400 * a + 100 * b + 4 * c + d + 1) = (d = 3 \<and> (c \<noteq> 24 \<or> b = 3))"
proof -
  define y where "y = 400 * a + 100 * b + 4 * c + d + 1"
  show ?thesis
  proof (cases "d = 3")
    case False
    have "y mod 4 = d + 1"
      by (rule int_mod_pos_eq [where q = "100 * a + 25 * b + c"])
         (use assms False in \<open>simp_all add: y_def\<close>)
    then have "y mod 4 \<noteq> 0" using assms by simp
    then show ?thesis using False by (simp add: is_leap_def y_def)
  next
    case d3: True
    have m4: "y mod 4 = 0"
      by (rule int_mod_pos_eq [where q = "100 * a + 25 * b + c + 1"])
         (use d3 in \<open>simp_all add: y_def\<close>)
    show ?thesis
    proof (cases "c = 24")
      case False
      have "y mod 100 = 4 * (c + 1)"
        by (rule int_mod_pos_eq [where q = "4 * a + b"])
           (use assms False d3 in \<open>simp_all add: y_def\<close>)
      then have "y mod 100 \<noteq> 0" using assms by simp
      then show ?thesis using m4 d3 False by (simp add: is_leap_def y_def)
    next
      case c24: True
      have m100: "y mod 100 = 0"
        by (rule int_mod_pos_eq [where q = "4 * a + b + 1"])
           (use c24 d3 in \<open>simp_all add: y_def\<close>)
      show ?thesis
      proof (cases "b = 3")
        case True
        have "y mod 400 = 0"
          by (rule int_mod_pos_eq [where q = "a + 1"])
             (use c24 d3 True in \<open>simp_all add: y_def\<close>)
        then show ?thesis using m4 d3 c24 True by (simp add: is_leap_def y_def)
      next
        case False
        have "y mod 400 = 100 * (b + 1)"
          by (rule int_mod_pos_eq [where q = a])
             (use assms c24 d3 False in \<open>simp_all add: y_def\<close>)
        then have "y mod 400 \<noteq> 0" using assms by simp
        then show ?thesis using m100 d3 c24 False by (simp add: is_leap_def y_def)
      qed
    qed
  qed
qed

lemma md_of_ok:
  assumes "0 \<le> n" "n < 365"
  shows "case md_of lp n of (m, d) \<Rightarrow>
           1 \<le> m \<and> m \<le> 12 \<and> 1 \<le> d
           \<and> d \<le> (if m = 2 \<and> lp then 29 else DAYS_IN_MONTH ! nat (m - 1))
           \<and> DAYS_BEFORE_MONTH ! nat (m - 1) + (if m > 2 \<and> lp then 1 else 0) + d = n + 1"
proof -
  define k where "k = (n + 50) div 32"
  have kb: "32 * k \<le> n + 50" "n + 50 < 32 * k + 32" unfolding k_def by simp_all
  then have "1 \<le> k" "k \<le> 12" using assms by simp_all
  then have disj: "k = 1 \<or> k = 2 \<or> k = 3 \<or> k = 4 \<or> k = 5 \<or> k = 6
    \<or> k = 7 \<or> k = 8 \<or> k = 9 \<or> k = 10 \<or> k = 11 \<or> k = 12" by presburger
  from disj show ?thesis
    unfolding md_of_def Let_def k_def[symmetric]
    using kb assms by (elim disjE) (simp_all add: DAYS_BEFORE_MONTH_def DAYS_IN_MONTH_def)
qed


lemma md_of_inner:
  "(let leapyear = L;
        mth = (n + 50) div 32;
        preceding = DAYS_BEFORE_MONTH ! nat (mth - 1)
                            + (if mth > 2 \<and> leapyear then 1 else 0)
            in if preceding > n
               then (let mth' = mth - 1;
                         preceding' = preceding - (DAYS_IN_MONTH ! nat (mth' - 1)
                                        + (if mth' = 2 \<and> leapyear then 1 else 0))
                     in (yr, mth', n - preceding' + 1))
               else (yr, mth, n - preceding + 1))
   = (case md_of L n of (m, d) \<Rightarrow> (yr, m, d))"
  by (simp add: md_of_def Let_def)

lemma ord2ymd_md_of:
  "ord2ymd n0 =
     (let n = n0 - 1;
          n400 = n div 146097; n = n mod 146097;
          n100 = n div 36524; n = n mod 36524;
          n4 = n div 1461; n = n mod 1461;
          n1 = n div 365; n = n mod 365;
          yr = n400 * 400 + 1 + n100 * 100 + n4 * 4 + n1
      in if n1 = 4 \<or> n100 = 4 then (yr - 1, 12, 31)
         else (case md_of (n1 = 3 \<and> (n4 \<noteq> 24 \<or> n100 = 3)) n of (m, d) \<Rightarrow> (yr, m, d)))"
  by (simp only: ord2ymd_def md_of_inner)

lemma ord2ymd_ok:
  assumes "1 \<le> n"
  shows "case ord2ymd n of (y, m, d) \<Rightarrow>
           ymd2ord y m d = n \<and> 1 \<le> y \<and> 1 \<le> m \<and> m \<le> 12 \<and> 1 \<le> d \<and> d \<le> days_in_month y m
           \<and> (n \<le> MAXORDINAL \<longrightarrow> y \<le> MAXYEAR)"
proof -
  define N where "N = n - 1"
  define a where "a = N div 146097"
  define r1 where "r1 = N mod 146097"
  define b where "b = r1 div 36524"
  define r2 where "r2 = r1 mod 36524"
  define c where "c = r2 div 1461"
  define r3 where "r3 = r2 mod 1461"
  define d where "d = r3 div 365"
  define r4 where "r4 = r3 mod 365"
  have N0: "0 \<le> N" using assms by (simp add: N_def)
  have eN: "N = 146097 * a + r1" and bN: "0 \<le> r1" "r1 < 146097"
    by (simp_all add: a_def r1_def)
  have e1: "r1 = 36524 * b + r2" and b1: "0 \<le> r2" "r2 < 36524"
    by (simp_all add: b_def r2_def)
  have e2: "r2 = 1461 * c + r3" and b2: "0 \<le> r3" "r3 < 1461"
    by (simp_all add: c_def r3_def)
  have e3: "r3 = 365 * d + r4" and b3: "0 \<le> r4" "r4 < 365"
    by (simp_all add: d_def r4_def)
  have a0: "0 \<le> a" using N0 by (simp add: a_def pos_imp_zdiv_nonneg_iff)
  have bb: "0 \<le> b" "b \<le> 4" using e1 b1 bN by linarith+
  have cb: "0 \<le> c" "c \<le> 24" using e2 b2 b1 by linarith+
  have db: "0 \<le> d" "d \<le> 4" using e3 b3 b2 by linarith+
  have nN: "n = N + 1" by (simp add: N_def)
  have eq: "ord2ymd n =
      (if d = 4 \<or> b = 4 then (a * 400 + 1 + b * 100 + c * 4 + d - 1, 12, 31)
       else (case md_of (d = 3 \<and> (c \<noteq> 24 \<or> b = 3)) r4 of
               (m, dd) \<Rightarrow> (a * 400 + 1 + b * 100 + c * 4 + d, m, dd)))"
    unfolding ord2ymd_md_of Let_def
    by (simp only: N_def [symmetric] a_def [symmetric] r1_def [symmetric] b_def [symmetric]
          r2_def [symmetric] c_def [symmetric] r3_def [symmetric] d_def [symmetric]
          r4_def [symmetric])
  have amax: "n \<le> MAXORDINAL \<Longrightarrow> a \<le> 24"
    using nN eN bN by (simp add: MAXORDINAL_def)
  show ?thesis
  proof (cases "b = 4")
    case b4: True
    then have z: "r2 = 0" "c = 0" "r3 = 0" "d = 0" "r4 = 0" "r1 = 146096"
      using e1 e2 e3 b1 b2 b3 bN cb db by linarith+
    have y: "a * 400 + 1 + b * 100 + c * 4 + d - 1 = 400 * a + 100 * 3 + 4 * 24 + 3 + 1"
      using b4 z by simp
    have dby: "days_before_year (400 * a + 100 * 3 + 4 * 24 + 3 + 1) = 146097 * a + 145731"
      using dby_decomp [of 3 24 3 a] by simp
    have lp: "is_leap (400 * a + 100 * 3 + 4 * 24 + 3 + 1)"
      using leap_decomp [of 3 24 3 a] by simp
    have "n \<le> MAXORDINAL \<Longrightarrow> a \<le> 23"
      using nN eN z by (simp add: MAXORDINAL_def)
    then show ?thesis
      unfolding eq y using b4 dby lp a0 nN eN z
      by (auto simp add: ymd2ord_def days_before_month_def days_in_month_def
            DAYS_BEFORE_MONTH_def DAYS_IN_MONTH_def MAXYEAR_def)
  next
    case bn4: False
    then have b3': "b \<le> 3" using bb by simp
    show ?thesis
    proof (cases "d = 4")
      case d4: True
      then have z: "r4 = 0" "r3 = 1460" using e3 b2 b3 by linarith+
      have c23: "c \<le> 23" using e2 z b1 by linarith
      have y: "a * 400 + 1 + b * 100 + c * 4 + d - 1 = 400 * a + 100 * b + 4 * c + 3 + 1"
        using d4 by simp
      have dby: "days_before_year (400 * a + 100 * b + 4 * c + 3 + 1)
                 = 146097 * a + 36524 * b + 1461 * c + 1095"
        using dby_decomp [of b c 3 a] bb b3' cb by simp
      have lp: "is_leap (400 * a + 100 * b + 4 * c + 3 + 1)"
        using leap_decomp [of b c 3 a] bb b3' cb c23 by simp
      have ymax: "n \<le> MAXORDINAL \<Longrightarrow> 400 * a + 100 * b + 4 * c + 4 \<le> 9999"
        using amax b3' c23 by simp
      show ?thesis
        unfolding eq y using d4 dby lp a0 bb cb nN eN e1 e2 z ymax
        by (auto simp add: ymd2ord_def days_before_month_def days_in_month_def
              DAYS_BEFORE_MONTH_def DAYS_IN_MONTH_def MAXYEAR_def)
    next
      case dn4: False
      then have d3': "d \<le> 3" using db by simp
      define lp where "lp = (d = 3 \<and> (c \<noteq> 24 \<or> b = 3))"
      define yr where "yr = 400 * a + 100 * b + 4 * c + d + 1"
      obtain m dd where md: "md_of lp r4 = (m, dd)" by (cases "md_of lp r4")
      have mdok: "1 \<le> m" "m \<le> 12" "1 \<le> dd"
        "dd \<le> (if m = 2 \<and> lp then 29 else DAYS_IN_MONTH ! nat (m - 1))"
        "DAYS_BEFORE_MONTH ! nat (m - 1) + (if m > 2 \<and> lp then 1 else 0) + dd = r4 + 1"
        using md_of_ok [OF b3, of lp] md by simp_all
      have res: "ord2ymd n = (yr, m, dd)"
        unfolding eq using bn4 dn4 md by (simp add: lp_def yr_def)
      have dby: "days_before_year yr = 146097 * a + 36524 * b + 1461 * c + 365 * d"
        unfolding yr_def using dby_decomp [of b c d a] bb b3' cb db d3' by simp
      have lpy: "is_leap yr = lp"
        unfolding yr_def lp_def using leap_decomp [of b c d a] bb b3' cb db d3' by simp
      have ord: "ymd2ord yr m dd = n"
        unfolding ymd2ord_def days_before_month_def dby lpy
        using mdok(5) nN eN e1 e2 e3 by linarith
      have y1: "1 \<le> yr" unfolding yr_def using a0 bb cb db by linarith
      have dim: "dd \<le> days_in_month yr m"
        unfolding days_in_month_def lpy using mdok(4) by simp
      have ymax: "yr \<le> MAXYEAR" if nm: "n \<le> MAXORDINAL"
      proof -
        have a24: "a \<le> 24" using amax nm by simp
        have tot: "146097 * a + 36524 * b + 1461 * c + 365 * d \<le> 3652058"
          using nm nN eN e1 e2 e3 b3 by (simp add: MAXORDINAL_def)
        show ?thesis
        proof (cases "a \<le> 23")
          case True
          then show ?thesis unfolding yr_def MAXYEAR_def using b3' cb d3' by linarith
        next
          case False
          then have a: "a = 24" using a24 by simp
          show ?thesis
          proof (cases "b \<le> 2")
            case True
            then show ?thesis unfolding yr_def MAXYEAR_def using a cb d3' by linarith
          next
            case False
            then have b: "b = 3" using b3' by simp
            show ?thesis
            proof (cases "c \<le> 23")
              case True
              then show ?thesis unfolding yr_def MAXYEAR_def using a b d3' by linarith
            next
              case False
              then have c: "c = 24" using cb by simp
              have "d \<le> 2" using tot a b c by simp
              then show ?thesis unfolding yr_def MAXYEAR_def using a b c by simp
            qed
          qed
        qed
      qed
      show ?thesis unfolding res using ord y1 mdok(1,2,3) dim ymax by simp
    qed
  qed
qed

section \<open>Properties of datetime arithmetic\<close>

lemma time_of_day_split:
  fixes r :: int
  assumes "0 \<le> r" "r < US_PER_DAY"
  shows "((r div US_PER_SECOND div 3600 * 60 + r div US_PER_SECOND mod 3600 div 60) * 60
            + r div US_PER_SECOND mod 60) * US_PER_SECOND + r mod US_PER_SECOND = r"
    and "0 \<le> r div US_PER_SECOND div 3600" and "r div US_PER_SECOND div 3600 < 24"
    and "0 \<le> r div US_PER_SECOND mod 3600 div 60" and "r div US_PER_SECOND mod 3600 div 60 < 60"
    and "0 \<le> r div US_PER_SECOND mod 60" and "r div US_PER_SECOND mod 60 < 60"
    and "0 \<le> r mod US_PER_SECOND" and "r mod US_PER_SECOND < US_PER_SECOND"
proof -
  define s where "s = r div 1000000"
  have s0: "0 \<le> s" using assms(1) by (simp add: s_def pos_imp_zdiv_nonneg_iff)
  have "r \<le> 86399999999" using assms(2) by (simp add: US_PER_DAY_def)
  then have "s \<le> 86399999999 div 1000000" unfolding s_def by (rule zdiv_mono1) simp
  then have s1: "s \<le> 86399" by simp
  have h0: "0 \<le> s div 3600" using s0 by (simp add: pos_imp_zdiv_nonneg_iff)
  have "s div 3600 \<le> 86399 div 3600" using s1 by (rule zdiv_mono1) simp
  then have h1: "s div 3600 < 24" by simp
  have m0: "0 \<le> s mod 3600 div 60" by (simp add: pos_imp_zdiv_nonneg_iff)
  have "s mod 3600 \<le> 3599" using pos_mod_bound [of 3600 s] by simp
  then have "s mod 3600 div 60 \<le> 3599 div 60" by (rule zdiv_mono1) simp
  then have m1: "s mod 3600 div 60 < 60" by simp
  have m: "s mod 3600 div 60 * 60 + s mod 60 = s mod 3600"
  proof -
    have "s mod 60 = s mod 3600 mod 60" by (simp add: mod_mod_cancel)
    then show ?thesis by simp
  qed
  have "(s div 3600 * 60 + s mod 3600 div 60) * 60 + s mod 60
        = s div 3600 * 3600 + (s mod 3600 div 60 * 60 + s mod 60)" by (simp add: algebra_simps)
  also have "\<dots> = s" unfolding m by simp
  finally have hms: "(s div 3600 * 60 + s mod 3600 div 60) * 60 + s mod 60 = s" .
  show "((r div US_PER_SECOND div 3600 * 60 + r div US_PER_SECOND mod 3600 div 60) * 60
            + r div US_PER_SECOND mod 60) * US_PER_SECOND + r mod US_PER_SECOND = r"
    unfolding US_PER_SECOND_def s_def [symmetric] hms by (simp add: s_def)
  show "0 \<le> r div US_PER_SECOND div 3600" "r div US_PER_SECOND div 3600 < 24"
    unfolding US_PER_SECOND_def s_def [symmetric] using h0 h1 by simp_all
  show "0 \<le> r div US_PER_SECOND mod 3600 div 60" "r div US_PER_SECOND mod 3600 div 60 < 60"
    unfolding US_PER_SECOND_def s_def [symmetric] using m0 m1 by simp_all
  show "0 \<le> r div US_PER_SECOND mod 60" "r div US_PER_SECOND mod 60 < 60"
    by simp_all
  show "0 \<le> r mod US_PER_SECOND" "r mod US_PER_SECOND < US_PER_SECOND"
    by (simp_all add: US_PER_SECOND_def)
qed

lemma of_local_us_props:
  assumes "1 \<le> t div US_PER_DAY"
  shows "local_us (of_local_us t tz) = t"
    and "tzinfo (of_local_us t tz) = tz"
    and "t div US_PER_DAY \<le> MAXORDINAL \<Longrightarrow> tz_ok tz \<Longrightarrow> valid_datetime (of_local_us t tz)"
proof -
  define n where "n = t div US_PER_DAY"
  define r where "r = t mod US_PER_DAY"
  define hh where "hh = r div US_PER_SECOND div 3600"
  define mi where "mi = r div US_PER_SECOND mod 3600 div 60"
  define ss where "ss = r div US_PER_SECOND mod 60"
  define us where "us = r mod US_PER_SECOND"
  obtain y m d where ymd: "ord2ymd n = (y, m, d)" by (cases "ord2ymd n") auto
  have ok: "ymd2ord y m d = n" "1 \<le> y" "1 \<le> m" "m \<le> 12" "1 \<le> d" "d \<le> days_in_month y m"
    "n \<le> MAXORDINAL \<longrightarrow> y \<le> MAXYEAR"
    using ord2ymd_ok [of n] assms ymd by (simp_all add: n_def)
  have r: "0 \<le> r" "r < US_PER_DAY" by (simp_all add: r_def US_PER_DAY_def)
  have t: "t = n * US_PER_DAY + r" by (simp add: n_def r_def)
  have tod: "((hh * 60 + mi) * 60 + ss) * US_PER_SECOND + us = r"
    "0 \<le> hh" "hh < 24" "0 \<le> mi" "mi < 60" "0 \<le> ss" "ss < 60" "0 \<le> us" "us < US_PER_SECOND"
    unfolding hh_def mi_def ss_def us_def by (rule time_of_day_split [OF r])+
  have eq: "of_local_us t tz =
      \<lparr>year = y, month = m, day = d, hour = hh, minute = mi, second = ss,
       microsecond = us, tzinfo = tz\<rparr>"
    unfolding of_local_us_def Let_def n_def [symmetric] r_def [symmetric] ymd
      hh_def mi_def ss_def us_def by simp
  have "local_us (of_local_us t tz) = n * US_PER_DAY + (((hh * 60 + mi) * 60 + ss) * US_PER_SECOND + us)"
    unfolding eq local_us_def by (simp add: ok(1))
  also have "\<dots> = n * US_PER_DAY + r" by (simp only: tod(1))
  finally show "local_us (of_local_us t tz) = t" using t by simp
  show "tzinfo (of_local_us t tz) = tz" unfolding eq by simp
  show "valid_datetime (of_local_us t tz)" if "t div US_PER_DAY \<le> MAXORDINAL" "tz_ok tz"
  proof -
    have "n \<le> MAXORDINAL" using that(1) by (simp add: n_def)
    then have ymax: "y \<le> MAXYEAR" using ok(7) by simp
    show ?thesis
      unfolding eq valid_datetime_def
      using ok(2-6) ymax tod(2-9) that(2)
      by (simp add: MINYEAR_def tz_ok_def)
  qed
qed

lemma datetime_sub_Inr_iff:
  "(\<exists>r. datetime_sub dt delta = Inr r)
     \<longleftrightarrow> 0 < (local_us dt - delta) div US_PER_DAY \<and> (local_us dt - delta) div US_PER_DAY \<le> MAXORDINAL"
  by (simp add: datetime_sub_def Let_def)

lemma datetime_sub_props:
  assumes "datetime_sub dt delta = Inr r"
  shows "local_us r = local_us dt - delta"
    and "tzinfo r = tzinfo dt"
    and "tz_ok (tzinfo dt) \<Longrightarrow> valid_datetime r"
proof -
  have b: "0 < (local_us dt - delta) div US_PER_DAY" "(local_us dt - delta) div US_PER_DAY \<le> MAXORDINAL"
    and r: "r = of_local_us (local_us dt - delta) (tzinfo dt)"
    using assms by (auto simp add: datetime_sub_def Let_def split: if_splits)
  from b have b1: "1 \<le> (local_us dt - delta) div US_PER_DAY" by simp
  show "local_us r = local_us dt - delta" unfolding r by (rule of_local_us_props(1) [OF b1])
  show "tzinfo r = tzinfo dt" unfolding r by (rule of_local_us_props(2) [OF b1])
  show "valid_datetime r" if "tz_ok (tzinfo dt)"
    unfolding r using of_local_us_props(3) [OF b1 b(2) that] .
qed

lemma valid_tz_ok: "valid_datetime dt \<Longrightarrow> tz_ok (tzinfo dt)"
  by (simp add: valid_datetime_def tz_ok_def)

lemma astimezone_utc_props:
  assumes "astimezone_utc dt = Inr u"
  shows "tzinfo u = Some 0" and "instant u = instant dt" and "valid_datetime dt \<Longrightarrow> valid_datetime u"
proof -
  obtain off where off: "tzinfo dt = Some off"
    using assms by (cases "tzinfo dt") (auto simp add: astimezone_utc_def)
  show "tzinfo u = Some 0" "instant u = instant dt"
    using assms off datetime_sub_props(1)
    by (auto simp add: astimezone_utc_def bind_err_def instant_def local_us_def
        split: if_splits sum.splits)
  show "valid_datetime u" if v: "valid_datetime dt"
  proof (cases "off = 0")
    case True
    then show ?thesis using assms off v by (simp add: astimezone_utc_def)
  next
    case False
    then obtain w where w: "datetime_sub dt off = Inr w" and u: "u = w\<lparr>tzinfo := Some 0\<rparr>"
      using assms off by (auto simp add: astimezone_utc_def bind_err_def split: sum.splits)
    have "valid_datetime w" using datetime_sub_props(3) [OF w] valid_tz_ok [OF v] .
    then show ?thesis unfolding u by (simp add: valid_datetime_def US_PER_DAY_def)
  qed
qed

section \<open>Properties of strings and of the relative grammar\<close>

lemma isspace_simps [simp]:
  "\<not> isspace (CHR ''Z'')" "\<not> isspace (CHR ''0'')" "\<not> isspace (CHR ''+'')" "\<not> isspace (CHR ''l'')"
  by (simp_all add: isspace_def)

lemma rev_dropWhile_split:
  "xs = rev (dropWhile P (rev xs)) @ rev (takeWhile P (rev xs))"
proof -
  have "rev (rev xs) = rev (takeWhile P (rev xs) @ dropWhile P (rev xs))"
    by (simp only: takeWhile_dropWhile_id)
  then show ?thesis by (simp only: rev_rev_ident rev_append)
qed

lemma dropWhile_hd_id:
  assumes "xs \<noteq> []" "\<not> P (hd xs)"
  shows "dropWhile P xs = xs"
  using assms by (cases xs) simp_all

lemma strip_ends:
  assumes "strip s \<noteq> []"
  shows "\<not> isspace (hd (strip s))" and "\<not> isspace (last (strip s))"
proof -
  define u where "u = dropWhile isspace s"
  define w where "w = dropWhile isspace (rev u)"
  have t: "strip s = rev w" by (simp add: strip_def u_def w_def)
  have ne: "w \<noteq> []" using assms t by simp
  then have "\<not> isspace (hd w)" unfolding w_def by (rule hd_dropWhile)
  then show "\<not> isspace (last (strip s))" unfolding t using ne by (simp add: last_rev)
  have une: "u \<noteq> []" using ne unfolding w_def by auto
  then have hu: "\<not> isspace (hd u)" unfolding u_def by (rule hd_dropWhile)
  have "u = strip s @ rev (takeWhile isspace (rev u))"
    unfolding t w_def by (rule rev_dropWhile_split)
  then have "hd u = hd (strip s)" using assms by (metis hd_append2)
  then show "\<not> isspace (hd (strip s))" using hu by simp
qed

lemma strip_fixed:
  assumes "t = [] \<or> (\<not> isspace (hd t) \<and> \<not> isspace (last t))"
  shows "strip t = t"
proof (cases "t = []")
  case True then show ?thesis by (simp add: strip_def)
next
  case False
  then have h: "\<not> isspace (hd t)" "\<not> isspace (last t)" using assms by auto
  have 1: "dropWhile isspace t = t" using False h(1) by (rule dropWhile_hd_id)
  have "rev t \<noteq> []" using False by simp
  moreover have "\<not> isspace (hd (rev t))" using False h(2) by (simp add: hd_rev)
  ultimately have 2: "dropWhile isspace (rev t) = rev t" by (rule dropWhile_hd_id)
  show ?thesis by (simp add: strip_def 1 2)
qed

lemma strip_idem: "strip (strip s) = strip s"
  using strip_ends [of s] by (intro strip_fixed) auto





lemma lower_simps [simp]:
  "lower (CHR ''Z'') = CHR ''z''" "lower (CHR ''0'') = CHR ''0''"
  "lower (CHR ''s'') = CHR ''s''" "lower (CHR ''m'') = CHR ''m''"
  "lower (CHR ''h'') = CHR ''h''" "lower (CHR ''d'') = CHR ''d''"
  "lower (CHR ''S'') = CHR ''s''" "lower (CHR ''M'') = CHR ''m''"
  "lower (CHR ''H'') = CHR ''h''" "lower (CHR ''D'') = CHR ''d''"
  "lower (CHR ''l'') = CHR ''l''" "lower (CHR ''a'') = CHR ''a''"
  "lower (CHR ''t'') = CHR ''t''" "lower (CHR '':'') = CHR '':''"
  by code_simp+

lemma rel_match_SomeD:
  assumes "rel_match v = Some (ds, u)"
  shows "ds \<noteq> []" and "list_all isdigit ds" and "lower u \<in> set ''smhd''"
    and "v \<noteq> []" and "lower (last v) \<in> set ''smhd'' \<or> last v = CHR 0x0A"
    and "map lower (take 5 v) = ''last:''"
proof -
  have p: "map lower (take 5 v) = ''last:''"
    using assms by (simp add: rel_match_def split: if_splits)
  then show "map lower (take 5 v) = ''last:''" .
  define rest where "rest = drop 5 v"
  have "(let rest = drop 5 v; ds = takeWhile isdigit rest in
         case dropWhile isdigit rest of
           [] \<Rightarrow> None
         | u # after \<Rightarrow>
             if ds \<noteq> [] \<and> lower u \<in> set ''smhd'' \<and> (after = [] \<or> after = [CHR 0x0A])
             then Some (ds, u) else None) = Some (ds, u)"
    using assms p by (simp add: rel_match_def)
  then have "(case dropWhile isdigit rest of [] \<Rightarrow> None
         | u # after \<Rightarrow> if takeWhile isdigit rest \<noteq> [] \<and> lower u \<in> set ''smhd''
                \<and> (after = [] \<or> after = [CHR 0x0A])
             then Some (takeWhile isdigit rest, u) else None) = Some (ds, u)"
    unfolding Let_def rest_def .
  then obtain after where d: "dropWhile isdigit rest = u # after"
    and ds: "ds = takeWhile isdigit rest" "ds \<noteq> []" and u: "lower u \<in> set ''smhd''"
    and a: "after = [] \<or> after = [CHR 0x0A]"
    by (auto split: list.splits if_splits)
  show "ds \<noteq> []" by (rule ds(2))
  show "list_all isdigit ds" unfolding ds(1) by (simp add: list_all_iff) (meson set_takeWhileD)
  show "lower u \<in> set ''smhd''" by (rule u)
  have r: "rest = ds @ u # after" using d ds(1) by (metis takeWhile_dropWhile_id)
  have "v = take 5 v @ drop 5 v" by simp
  then have v: "v = take 5 v @ ds @ u # after" using r by (simp only: rest_def)
  show "v \<noteq> []" using v by auto
  have "last v = last (u # after)"
    using v by (metis append_assoc last_appendR list.distinct(1))
  then show "lower (last v) \<in> set ''smhd'' \<or> last v = CHR 0x0A"
    using a u by auto
qed



lemma isdigit_unit: "u \<in> set ''smhdSMHD'' \<Longrightarrow> \<not> isdigit u \<and> \<not> isspace u \<and> lower u \<in> set ''smhd''"
  by (auto simp add: isdigit_def isspace_def)

lemma rel_match_spec:
  assumes "ds \<noteq> []" "list_all isdigit ds" "u \<in> set ''smhdSMHD''"
  shows "rel_match (''last:'' @ ds @ [u]) = Some (ds, u)"
proof -
  have nd: "\<not> isdigit u" and lu: "lower u \<in> set ''smhd''" using isdigit_unit [OF assms(3)] by simp_all
  have all: "\<forall>c\<in>set ds. isdigit c" using assms(2) by (simp add: list_all_iff)
  have t: "takeWhile isdigit (ds @ [u]) = ds" using all nd by (simp add: takeWhile_append2)
  have d: "dropWhile isdigit (ds @ [u]) = [u]" using all nd by (simp add: dropWhile_append2)
  have l: "map lower ''last:'' = ''last:''" by simp
  show ?thesis
    unfolding rel_match_def using assms(1) lu l by (simp add: t d)
qed

lemma strip_spec:
  assumes "u \<in> set ''smhdSMHD''"
  shows "strip (''last:'' @ ds @ [u]) = ''last:'' @ ds @ [u]"
  using isdigit_unit [OF assms] by (intro strip_fixed) simp

section \<open>Bounds of the calendar\<close>

lemma representable_iff:
  "representable t \<longleftrightarrow> 0 < t div US_PER_DAY \<and> t div US_PER_DAY \<le> MAXORDINAL"
proof -
  define q where "q = t div 86400000000"
  define r where "r = t mod 86400000000"
  have t: "t = 86400000000 * q + r" and r: "0 \<le> r" "r < 86400000000"
    by (simp_all add: q_def r_def)
  have "(86400000000 \<le> t \<and> t < 3652060 * 86400000000) = (0 < q \<and> q \<le> 3652059)"
    unfolding t using r by auto
  then show ?thesis
    by (simp add: representable_def US_PER_DAY_def MAXORDINAL_def q_def)
qed

lemma days_before_year_bounds:
  assumes "1 \<le> y" "y \<le> 9998"
  shows "0 \<le> days_before_year y" and "days_before_year y \<le> 3651693"
proof -
  define Y where "Y = y - 1"
  define q4 where "q4 = Y div 4"
  define q100 where "q100 = Y div 100"
  define q400 where "q400 = Y div 400"
  have Y: "0 \<le> Y" "Y \<le> 9997" using assms by (simp_all add: Y_def)
  have a: "4 * q4 \<le> Y" "0 \<le> q4" using Y by (simp_all add: q4_def pos_imp_zdiv_nonneg_iff)
  have b: "Y < 100 * q100 + 100" "100 * q100 \<le> Y" "0 \<le> q100"
    using Y by (simp_all add: q100_def pos_imp_zdiv_nonneg_iff dividend_less_times_div)
  have c: "400 * q400 \<le> Y" "0 \<le> q400" using Y by (simp_all add: q400_def pos_imp_zdiv_nonneg_iff)
  have a': "Y < 4 * q4 + 4" by (simp add: q4_def dividend_less_times_div)
  have "q100 \<le> q4" using a' b(2,3) by linarith
  have d: "days_before_year y = Y * 365 + q4 - q100 + q400"
    unfolding days_before_year_def Let_def Y_def q4_def q100_def q400_def ..
  show "0 \<le> days_before_year y" unfolding d using Y \<open>q100 \<le> q4\<close> c by linarith
  show "days_before_year y \<le> 3651693" unfolding d using Y a b c by linarith
qed

lemma days_before_year_9999: "days_before_year 9999 = 3651694" "\<not> is_leap 9999"
  by (simp_all add: days_before_year_def is_leap_def)

lemma day_of_year_bounds:
  assumes "1 \<le> m" "m \<le> 12" "1 \<le> d" "d \<le> days_in_month y m"
  shows "1 \<le> days_before_month y m + d"
    and "days_before_month y m + d \<le> 365 + (if is_leap y then 1 else 0)"
proof -
  have disj: "m = 1 \<or> m = 2 \<or> m = 3 \<or> m = 4 \<or> m = 5 \<or> m = 6
    \<or> m = 7 \<or> m = 8 \<or> m = 9 \<or> m = 10 \<or> m = 11 \<or> m = 12" using assms(1,2) by presburger
  from disj show "1 \<le> days_before_month y m + d"
    using assms(3) by (elim disjE) (simp_all add: days_before_month_def DAYS_BEFORE_MONTH_def)
  from disj show "days_before_month y m + d \<le> 365 + (if is_leap y then 1 else 0)"
    using assms(4)
    by (elim disjE)
       (simp_all add: days_before_month_def days_in_month_def DAYS_BEFORE_MONTH_def
          DAYS_IN_MONTH_def split: if_splits)
qed

lemma ymd2ord_bounds:
  assumes "1 \<le> y" "y \<le> 9999" "1 \<le> m" "m \<le> 12" "1 \<le> d" "d \<le> days_in_month y m"
  shows "1 \<le> ymd2ord y m d" and "ymd2ord y m d \<le> MAXORDINAL"
proof -
  note doy = day_of_year_bounds [OF assms(3-6)]
  show "1 \<le> ymd2ord y m d"
  proof (cases "y = 9999")
    case True
    then show ?thesis unfolding ymd2ord_def using doy(1) days_before_year_9999 by simp
  next
    case False
    then have "y \<le> 9998" using assms(2) by simp
    then show ?thesis
      unfolding ymd2ord_def using doy(1) days_before_year_bounds(1) [OF assms(1)] by linarith
  qed
  show "ymd2ord y m d \<le> MAXORDINAL"
  proof (cases "y = 9999")
    case True
    then show ?thesis
      unfolding ymd2ord_def MAXORDINAL_def using doy(2) days_before_year_9999 by simp
  next
    case False
    then have "y \<le> 9998" using assms(2) by simp
    then have "days_before_year y \<le> 3651693" using days_before_year_bounds(2) [OF assms(1)] by simp
    moreover have "days_before_month y m + d \<le> 366" using doy(2) by (simp split: if_splits)
    ultimately show ?thesis unfolding ymd2ord_def MAXORDINAL_def by linarith
  qed
qed

lemma valid_local_us:
  assumes "valid_datetime dt"
  shows "representable (local_us dt)"
proof -
  define n where "n = ymd2ord (year dt) (month dt) (day dt)"
  define tod where "tod = ((hour dt * 60 + minute dt) * 60 + second dt) * US_PER_SECOND + microsecond dt"
  have v: "1 \<le> year dt" "year dt \<le> 9999" "1 \<le> month dt" "month dt \<le> 12" "1 \<le> day dt"
    "day dt \<le> days_in_month (year dt) (month dt)"
    using assms by (simp_all add: valid_datetime_def MINYEAR_def MAXYEAR_def)
  have n: "1 \<le> n" "n \<le> MAXORDINAL" unfolding n_def by (rule ymd2ord_bounds [OF v])+
  have h: "0 \<le> hour dt" "hour dt \<le> 23" "0 \<le> minute dt" "minute dt \<le> 59"
    "0 \<le> second dt" "second dt \<le> 59" "0 \<le> microsecond dt" "microsecond dt \<le> 999999"
    using assms by (simp_all add: valid_datetime_def US_PER_SECOND_def)
  have t0: "0 \<le> tod" unfolding tod_def US_PER_SECOND_def using h by simp
  have "(hour dt * 60 + minute dt) * 60 + second dt \<le> 86399" using h by (simp add: algebra_simps)
  then have "((hour dt * 60 + minute dt) * 60 + second dt) * 1000000 \<le> 86399 * 1000000"
    by (rule mult_right_mono) simp
  then have t1: "tod < US_PER_DAY" unfolding tod_def US_PER_SECOND_def US_PER_DAY_def using h(8) by linarith
  have l: "local_us dt = n * US_PER_DAY + tod" by (simp add: local_us_def n_def tod_def)
  have "local_us dt div US_PER_DAY = n"
    unfolding l by (rule int_div_pos_eq [where r = tod]) (use t0 t1 in \<open>simp_all add: mult.commute\<close>)
  then show ?thesis using n by (simp add: representable_iff)
qed

section \<open>Properties of the formatting\<close>

lemma isdigit_digit_char [simp]: "isdigit (digit_char k)"
proof -
  have "48 + k mod 10 < 256" by (simp add: less_le_trans [OF mod_less_divisor])
  then have "of_char (digit_char k) = 48 + k mod 10"
    unfolding digit_char_def by (simp add: of_char_of)
  then show ?thesis by (simp add: isdigit_def)
qed

lemma digits_lt10: "n < 10 \<Longrightarrow> digits n = [digit_char n]"
  by (simp add: digits.simps)

lemma digits_lt100: "10 \<le> n \<Longrightarrow> n < 100 \<Longrightarrow> digits n = [digit_char (n div 10), digit_char n]"
  by (subst digits.simps) (simp add: digits_lt10)

lemma digits_lt1000:
  "100 \<le> n \<Longrightarrow> n < 1000 \<Longrightarrow> digits n = [digit_char (n div 100), digit_char (n div 10), digit_char n]"
  by (subst digits.simps) (simp add: digits_lt100 div_mult2_eq [symmetric])

lemma digits_lt10000:
  "1000 \<le> n \<Longrightarrow> n < 10000 \<Longrightarrow>
   digits n = [digit_char (n div 1000), digit_char (n div 100), digit_char (n div 10), digit_char n]"
  by (subst digits.simps) (simp add: digits_lt1000 div_mult2_eq [symmetric])

lemma digit_char_zero [simp]: "digit_char 0 = CHR ''0''"
  by code_simp

lemma replicate_small:
  "replicate (Suc 0) x = [x]" "replicate 2 x = [x, x]" "replicate 3 x = [x, x, x]"
  by (simp_all add: numeral_2_eq_2 numeral_3_eq_3)

lemma zpad2:
  assumes "0 \<le> n" "n < 100"
  shows "zpad 2 n = [digit_char (nat n div 10), digit_char (nat n)]"
proof (cases "nat n < 10")
  case True
  then show ?thesis by (simp add: zpad_def digits_lt10)
next
  case False
  then show ?thesis using assms by (simp add: zpad_def digits_lt100)
qed

lemma zpad4:
  assumes "0 \<le> n" "n < 10000"
  shows "zpad 4 n = [digit_char (nat n div 1000), digit_char (nat n div 100),
                     digit_char (nat n div 10), digit_char (nat n)]"
proof -
  consider "nat n < 10" | "10 \<le> nat n" "nat n < 100" | "100 \<le> nat n" "nat n < 1000"
    | "1000 \<le> nat n" "nat n < 10000" using assms by linarith
  then show ?thesis
  proof cases
    case 1 then show ?thesis by (simp add: zpad_def digits_lt10 replicate_small)
  next
    case 2 then show ?thesis by (simp add: zpad_def digits_lt100 replicate_small)
  next
    case 3 then show ?thesis by (simp add: zpad_def digits_lt1000 replicate_small)
  next
    case 4 then show ?thesis by (simp add: zpad_def digits_lt10000)
  qed
qed

lemma digits_four:
  assumes "1000 \<le> n" "n < 10000"
  shows "digits (nat n) = [digit_char (nat n div 1000), digit_char (nat n div 100),
                           digit_char (nat n div 10), digit_char (nat n)]"
  using assms by (simp add: digits_lt10000)

lemma strftime_matches:
  assumes "valid_datetime d" and "1000 \<le> year d"
  shows "matches SINCE_PATTERN (strftime_since d)"
proof -
  have v: "1000 \<le> year d" "year d < 10000" "0 \<le> month d" "month d < 100" "0 \<le> day d" "day d < 100"
    "0 \<le> hour d" "hour d < 100" "0 \<le> minute d" "minute d < 100" "0 \<le> second d" "second d < 100"
    using assms
    by (auto simp add: valid_datetime_def MINYEAR_def MAXYEAR_def days_in_month_def
        DAYS_IN_MONTH_def nth_Cons' split: if_splits)
  show ?thesis
    unfolding strftime_since_def strftime_Y_def digits_four [OF v(1,2)] zpad2 [OF v(3,4)]
      zpad2 [OF v(5,6)] zpad2 [OF v(7,8)] zpad2 [OF v(9,10)] zpad2 [OF v(11,12)]
    by (simp add: matches_def SINCE_PATTERN_def pat_ok_def)
qed

section \<open>Properties of the Range Resolver\<close>

lemma strip_Nil [simp]: "strip [] = []"
  by (simp add: strip_def)

lemma parse_range_strip: "parse_range_with fi (strip s) now = parse_range_with fi s now"
proof (cases "strip s = []")
  case True
  then show ?thesis by (simp add: parse_range_with_def)
next
  case False
  then have "s \<noteq> []" by auto
  then show ?thesis using False by (simp add: parse_range_with_def strip_idem)
qed

lemma parse_range_rel:
  assumes "strip s \<noteq> []" "tzinfo now \<noteq> None" "rel_match (strip s) = Some (ds, u)"
  shows "parse_range_with fi s now =
     bind_err (to_int ds) (\<lambda>amount.
      if amount \<le> 0 then Inl (ValueError ''relative range amount must be > 0'')
      else bind_err (unit_delta (lower u) amount) (\<lambda>delta.
           bind_err (astimezone_utc now) (\<lambda>n.
           bind_err (datetime_sub n delta) (\<lambda>since.
           bind_err (format_journalctl_since_arg since) (\<lambda>a.
             Inr \<lparr>range_input = strip s, since_utc = since, since_arg = a\<rparr>)))))"
proof -
  have "s \<noteq> []" using assms(1) by auto
  moreover obtain off where "tzinfo now = Some off" using assms(2) by auto
  ultimately show ?thesis using assms(1,3) by (simp add: parse_range_with_def Let_def)
qed

lemma parse_range_iso:
  assumes "strip s \<noteq> []" "tzinfo now \<noteq> None" "rel_match (strip s) = None"
  shows "parse_range_with fi s now =
     (case fi (iso_string (strip s)) of
        None \<Rightarrow> Inl (ValueError ISO_MSG)
      | Some dt \<Rightarrow>
          if tzinfo dt = None then Inl (ValueError TZ_MSG)
          else bind_err (astimezone_utc dt) (\<lambda>dt_utc.
               bind_err (format_journalctl_since_arg dt_utc) (\<lambda>a.
                 Inr \<lparr>range_input = strip s, since_utc = dt_utc, since_arg = a\<rparr>)))"
proof -
  have "s \<noteq> []" using assms(1) by auto
  moreover obtain off where "tzinfo now = Some off" using assms(2) by auto
  ultimately show ?thesis using assms(1,3) by (simp add: parse_range_with_def Let_def)
qed

lemma parse_range_InrD:
  assumes "parse_range_with fi s now = Inr tr"
  shows "strip s \<noteq> []" and "tzinfo now \<noteq> None"
proof -
  show "strip s \<noteq> []" using assms by (auto simp add: parse_range_with_def split: if_splits)
  show "tzinfo now \<noteq> None"
  proof
    assume "tzinfo now = None"
    then have "\<exists>e. parse_range_with fi s now = Inl e" by (simp add: parse_range_with_def Let_def)
    with assms show False by auto
  qed
qed

lemma format_since_utc:
  "tzinfo d = Some 0 \<Longrightarrow> format_journalctl_since_arg d = Inr (strftime_since d)"
  by (simp add: format_journalctl_since_arg_def astimezone_utc_def bind_err_def)

lemma astimezone_utc_cases:
  assumes "valid_datetime dt" "tzinfo dt \<noteq> None"
  shows "if representable (instant dt)
         then (\<exists>u. astimezone_utc dt = Inr u \<and> tzinfo u = Some 0 \<and> local_us u = instant dt
                  \<and> valid_datetime u)
         else astimezone_utc dt = Inl OverflowError"
proof -
  obtain off where off: "tzinfo dt = Some off" using assms(2) by auto
  show ?thesis
  proof (cases "off = 0")
    case True
    then have "instant dt = local_us dt" using off by (simp add: instant_def)
    moreover have "representable (local_us dt)" using assms(1) by (rule valid_local_us)
    moreover have "astimezone_utc dt = Inr dt" using off True by (simp add: astimezone_utc_def)
    ultimately show ?thesis using assms(1) off True by simp
  next
    case False
    have i: "instant dt = local_us dt - off" using off by (simp add: instant_def)
    show ?thesis
    proof (cases "representable (instant dt)")
      case True
      then have "\<exists>r. datetime_sub dt off = Inr r"
        unfolding datetime_sub_Inr_iff i by (simp add: representable_iff)
      then obtain r where r: "datetime_sub dt off = Inr r" ..
      have a: "astimezone_utc dt = Inr (r\<lparr>tzinfo := Some 0\<rparr>)"
        using off False r by (simp add: astimezone_utc_def bind_err_def)
      have "local_us (r\<lparr>tzinfo := Some 0\<rparr>) = local_us r" by (simp add: local_us_def)
      then have l: "local_us (r\<lparr>tzinfo := Some 0\<rparr>) = instant dt"
        using datetime_sub_props(1) [OF r] i by simp
      have "valid_datetime (r\<lparr>tzinfo := Some 0\<rparr>)"
        using astimezone_utc_props(3) [OF a assms(1)] .
      then show ?thesis using True a l by simp
    next
      case nr: False
      then have "\<not> (\<exists>r. datetime_sub dt off = Inr r)"
        unfolding datetime_sub_Inr_iff i by (simp add: representable_iff)
      then have "datetime_sub dt off = Inl OverflowError"
        by (auto simp add: datetime_sub_def Let_def split: if_splits)
      then show ?thesis using nr off False by (simp add: astimezone_utc_def bind_err_def)
    qed
  qed
qed

lemma datetime_sub_cases:
  "datetime_sub dt delta =
     (if representable (local_us dt - delta) then Inr (of_local_us (local_us dt - delta) (tzinfo dt))
      else Inl OverflowError)"
  by (simp add: datetime_sub_def Let_def representable_iff)

lemma unit_seconds_pos: "1 \<le> unit_seconds u" "unit_seconds u \<le> 86400"
  by (simp_all add: unit_seconds_def)

lemma unit_delta_eq:
  assumes "lower u \<in> set ''smhd''"
  shows "unit_delta (lower u) n =
     (if \<bar>duration_us n u div US_PER_DAY\<bar> \<le> 999999999 then Inr (duration_us n u)
      else Inl OverflowError)"
  using assms
  by (auto simp add: unit_delta_def timedelta_def duration_us_def unit_seconds_def Let_def
      algebra_simps)

lemma duration_in_range:
  assumes "0 < n" "representable a" "representable (a - duration_us n u)"
  shows "\<bar>duration_us n u div US_PER_DAY\<bar> \<le> 999999999"
proof -
  define dl where "dl = duration_us n u"
  have "0 < n * unit_seconds u" using assms(1) unit_seconds_pos(1) [of u] by simp
  then have p: "0 \<le> dl" by (simp add: dl_def duration_us_def US_PER_SECOND_def)
  have "dl < 3652059 * 86400000000"
    using assms(2,3) by (simp add: representable_def dl_def US_PER_DAY_def MAXORDINAL_def)
  then have "dl div 86400000000 \<le> (3652059 * 86400000000) div 86400000000"
    by (intro zdiv_mono1) simp_all
  then have "dl div 86400000000 \<le> 999999999" by simp
  moreover have "0 \<le> dl div 86400000000" using p by (simp add: pos_imp_zdiv_nonneg_iff)
  ultimately show ?thesis by (simp add: dl_def US_PER_DAY_def)
qed

lemma mk_datetime_valid: "mk_datetime y m d hh mm ss us tz = Some dt \<Longrightarrow> valid_datetime dt"
  by (auto simp add: mk_datetime_def Let_def split: if_splits)

lemma fromisoformat_valid: "fromisoformat t = Some dt \<Longrightarrow> valid_datetime dt"
  by (auto simp add: fromisoformat_def Let_def dest: mk_datetime_valid
      split: option.splits if_splits prod.splits)

lemma to_int_Inr: "length ds \<le> MAX_STR_DIGITS \<Longrightarrow> to_int ds = Inr (digits_value ds)"
  by (simp add: to_int_def)

lemma to_int_Inl:
  "MAX_STR_DIGITS < length ds \<Longrightarrow> to_int ds = Inl (ValueError (INT_LIMIT_MSG (length ds)))"
  by (simp add: to_int_def)

lemma parse_range_relative:
  assumes v: "strip s \<noteq> []" and m: "rel_match (strip s) = Some (ds, u)"
    and len: "length ds \<le> MAX_STR_DIGITS" and pos: "0 < digits_value ds"
    and now: "valid_datetime now" "tzinfo now \<noteq> None"
  shows "parse_range_with fi s now =
     (if representable (instant now) \<and> representable (instant now - duration_us (digits_value ds) u)
      then Inr \<lparr>range_input = strip s,
                since_utc = of_local_us (instant now - duration_us (digits_value ds) u) (Some 0),
                since_arg = strftime_since
                  (of_local_us (instant now - duration_us (digits_value ds) u) (Some 0))\<rparr>
      else Inl OverflowError)"
proof -
  define n where "n = digits_value ds"
  define dl where "dl = duration_us n u"
  define t where "t = instant now - dl"
  have lu: "lower u \<in> set ''smhd''" using rel_match_SomeD(3) [OF m] .
  have pr: "parse_range_with fi s now =
      bind_err (unit_delta (lower u) n) (\<lambda>delta.
           bind_err (astimezone_utc now) (\<lambda>n.
           bind_err (datetime_sub n delta) (\<lambda>since.
           bind_err (format_journalctl_since_arg since) (\<lambda>a.
             Inr \<lparr>range_input = strip s, since_utc = since, since_arg = a\<rparr>))))"
    using parse_range_rel [OF v now(2) m, where fi = fi] pos
    by (simp add: n_def to_int_Inr [OF len] bind_err_def)
  note ud = unit_delta_eq [OF lu, of n, folded dl_def]
  note az = astimezone_utc_cases [OF now]
  show ?thesis
  proof (cases "representable (instant now) \<and> representable t")
    case True
    then have r: "representable (instant now)" "representable t" by simp_all
    have "\<bar>dl div US_PER_DAY\<bar> \<le> 999999999"
      unfolding dl_def using pos r by (intro duration_in_range [of n "instant now"]) (simp_all add: n_def t_def dl_def)
    then have 1: "unit_delta (lower u) n = Inr dl" using ud by simp
    obtain w where 2: "astimezone_utc now = Inr w" and w: "tzinfo w = Some 0" "local_us w = instant now"
      using az r(1) by auto
    have 3: "datetime_sub w dl = Inr (of_local_us t (Some 0))"
      unfolding datetime_sub_cases using r(2) w by (simp add: t_def)
    have tz: "tzinfo (of_local_us t (Some 0)) = Some 0"
      using r(2) by (intro of_local_us_props(2)) (simp add: representable_iff)
    have 4: "format_journalctl_since_arg (of_local_us t (Some 0)) = Inr (strftime_since (of_local_us t (Some 0)))"
      using tz by (rule format_since_utc)
    have "parse_range_with fi s now = Inr \<lparr>range_input = strip s, since_utc = of_local_us t (Some 0),
                since_arg = strftime_since (of_local_us t (Some 0))\<rparr>"
      unfolding pr by (simp add: 1 2 3 4 bind_err_def)
    then show ?thesis using True by (simp add: t_def dl_def n_def)
  next
    case False
    have "parse_range_with fi s now = Inl OverflowError"
    proof (cases "\<bar>dl div US_PER_DAY\<bar> \<le> 999999999")
      case f: False
      then show ?thesis unfolding pr using ud by (simp add: bind_err_def)
    next
      case True
      then have 1: "unit_delta (lower u) n = Inr dl" using ud by simp
      show ?thesis
      proof (cases "representable (instant now)")
        case f: False
        then have "astimezone_utc now = Inl OverflowError" using az by simp
        then show ?thesis unfolding pr by (simp add: 1 bind_err_def)
      next
        case True
        then obtain w where 2: "astimezone_utc now = Inr w" and w: "tzinfo w = Some 0" "local_us w = instant now"
          using az by auto
        have "\<not> representable t" using True False by simp
        then have 3: "datetime_sub w dl = Inl OverflowError"
          unfolding datetime_sub_cases using w by (simp add: t_def)
        show ?thesis unfolding pr by (simp add: 1 2 3 bind_err_def)
      qed
    qed
    then show ?thesis using False by (simp add: t_def dl_def n_def)
  qed
qed

lemma parse_range_absolute:
  assumes v: "strip s \<noteq> []" and now: "tzinfo now \<noteq> None"
    and m: "rel_match (strip s) = None"
    and f: "fi (iso_string (strip s)) = Some dt" and vd: "valid_datetime dt"
  shows "tzinfo dt = None \<Longrightarrow> parse_range_with fi s now = Inl (ValueError TZ_MSG)"
    and "tzinfo dt \<noteq> None \<Longrightarrow> \<not> representable (instant dt) \<Longrightarrow> parse_range_with fi s now = Inl OverflowError"
    and "tzinfo dt \<noteq> None \<Longrightarrow> representable (instant dt) \<Longrightarrow>
           \<exists>w. parse_range_with fi s now = Inr \<lparr>range_input = strip s, since_utc = w, since_arg = strftime_since w\<rparr>
              \<and> tzinfo w = Some 0 \<and> instant w = instant dt \<and> valid_datetime w"
proof -
  note pr = parse_range_iso [OF v now m, where fi = fi, unfolded f option.case]
  show "parse_range_with fi s now = Inl (ValueError TZ_MSG)" if "tzinfo dt = None"
    unfolding pr using that by simp
  show "parse_range_with fi s now = Inl OverflowError" if "tzinfo dt \<noteq> None" "\<not> representable (instant dt)"
    unfolding pr using astimezone_utc_cases [OF vd that(1)] that by (simp add: bind_err_def)
  show "\<exists>w. parse_range_with fi s now = Inr \<lparr>range_input = strip s, since_utc = w, since_arg = strftime_since w\<rparr>
              \<and> tzinfo w = Some 0 \<and> instant w = instant dt \<and> valid_datetime w"
    if tz: "tzinfo dt \<noteq> None" and rp: "representable (instant dt)"
  proof -
    obtain w where a: "astimezone_utc dt = Inr w" and w: "tzinfo w = Some 0"
      "local_us w = instant dt" "valid_datetime w"
      using astimezone_utc_cases [OF vd tz] rp by auto
    have "instant w = instant dt" using w(1,2) by (simp add: instant_def)
    moreover have "parse_range_with fi s now = Inr \<lparr>range_input = strip s, since_utc = w, since_arg = strftime_since w\<rparr>"
      unfolding pr using tz a format_since_utc [OF w(1)] by (simp add: bind_err_def)
    ultimately show ?thesis using w by blast
  qed
qed

lemma parse_range_result:
  assumes "parse_range_with fi s now = Inr tr" "valid_datetime now"
    and fv: "\<And>t d. fi t = Some d \<Longrightarrow> valid_datetime d"
  shows "range_input tr = strip s" and "since_arg tr = strftime_since (since_utc tr)"
    and "tzinfo (since_utc tr) = Some 0" and "valid_datetime (since_utc tr)"
proof -
  note d = parse_range_InrD [OF assms(1)]
  have "range_input tr = strip s \<and> since_arg tr = strftime_since (since_utc tr)
        \<and> tzinfo (since_utc tr) = Some 0 \<and> valid_datetime (since_utc tr)"
  proof (cases "rel_match (strip s)")
    case None
    obtain dt where f: "fi (iso_string (strip s)) = Some dt"
      using parse_range_iso [OF d None] assms(1) by (auto split: option.splits)
    note pa = parse_range_absolute [where fi = fi, OF d None f fv [OF f]]
    have tz: "tzinfo dt \<noteq> None" using pa(1) assms(1) by auto
    have "representable (instant dt)" using pa(2) [OF tz] assms(1) by auto
    then show ?thesis using pa(3) [OF tz] assms(1) by auto
  next
    case (Some p)
    obtain ds u where p: "p = (ds, u)" by (cases p)
    note m = Some [unfolded p]
    have len: "length ds \<le> MAX_STR_DIGITS"
      using parse_range_rel [OF d m, where fi = fi] assms(1)
      by (auto simp add: to_int_def bind_err_def split: if_splits)
    have pos: "0 < digits_value ds"
      using parse_range_rel [OF d m, where fi = fi] assms(1)
      by (auto simp add: to_int_Inr [OF len] bind_err_def split: if_splits)
    define t where "t = instant now - duration_us (digits_value ds) u"
    note pr = parse_range_relative [OF d(1) m len pos assms(2) d(2), where fi = fi, folded t_def]
    have r: "representable t" using pr assms(1) by (auto split: if_splits)
    have tr: "tr = \<lparr>range_input = strip s, since_utc = of_local_us t (Some 0),
                since_arg = strftime_since (of_local_us t (Some 0))\<rparr>"
      using pr assms(1) by (auto split: if_splits)
    have b: "1 \<le> t div US_PER_DAY" "t div US_PER_DAY \<le> MAXORDINAL"
      using r by (simp_all add: representable_iff)
    show ?thesis
      unfolding tr using of_local_us_props(2) [OF b(1)] of_local_us_props(3) [OF b]
      by (simp add: tz_ok_def US_PER_DAY_def)
  qed
  then show "range_input tr = strip s" and "since_arg tr = strftime_since (since_utc tr)"
    and "tzinfo (since_utc tr) = Some 0" and "valid_datetime (since_utc tr)" by simp_all
qed

lemma parse_range_range_input:
  assumes "parse_range_with fi s now = Inr tr"
  shows "range_input tr = strip s"
proof -
  note d = parse_range_InrD [OF assms]
  show ?thesis
  proof (cases "rel_match (strip s)")
    case None
    show ?thesis
      using assms unfolding parse_range_iso [OF d None]
      by (auto simp add: bind_err_def split: option.splits if_splits sum.splits)
  next
    case (Some p)
    obtain ds u where p: "p = (ds, u)" by (cases p)
    show ?thesis
      using assms unfolding parse_range_rel [OF d Some [unfolded p]]
      by (auto simp add: bind_err_def split: if_splits sum.splits)
  qed
qed


section \<open>The Range Resolver: the claims\<close>

text \<open>The instants of the examples, and what the model computes on them.\<close>

lemma example_last_5m:
  "parse_range ''last:5m''
     \<lparr>year = 2025, month = 12, day = 30, hour = 12, minute = 0, second = 0, microsecond = 0,
      tzinfo = Some 0\<rparr>
   = Inr \<lparr>range_input = ''last:5m'',
          since_utc = \<lparr>year = 2025, month = 12, day = 30, hour = 11, minute = 55, second = 0,
                       microsecond = 0, tzinfo = Some 0\<rparr>,
          since_arg = ''2025-12-30 11:55:00 UTC''\<rparr>"
  by code_simp

lemma example_now_valid:
  "valid_datetime \<lparr>year = 2025, month = 12, day = 30, hour = 12, minute = 0, second = 0,
      microsecond = 0, tzinfo = Some 0\<rparr>"
  by code_simp



text \<open>
  Claim C10. \<open>parse_range\<close> accepts its input with white space around it: for every
  string \<open>s\<close> and every \<open>now\<close> the result for \<open>s\<close> is the result for \<open>strip s\<close>
  (the same \<open>TimeRange\<close> or the same error), and the \<open>range_input\<close> of a result is
  the stripped input, not the raw one.
\<close>

theorem parse_range_strips_input:
  "parse_range s now = parse_range (strip s) now
   \<and> (\<forall>tr. parse_range s now = Inr tr \<longrightarrow> range_input tr = strip s)"
  unfolding parse_range_def
  using parse_range_strip [of fromisoformat s now] parse_range_range_input [of fromisoformat s now]
  by simp

theorem parse_range_strips_input_witness:
  "parse_range ''  last:5m ''
     \<lparr>year = 2025, month = 12, day = 30, hour = 12, minute = 0, second = 0, microsecond = 0,
      tzinfo = Some 0\<rparr>
   = Inr \<lparr>range_input = ''last:5m'',
          since_utc = \<lparr>year = 2025, month = 12, day = 30, hour = 11, minute = 55, second = 0,
                       microsecond = 0, tzinfo = Some 0\<rparr>,
          since_arg = ''2025-12-30 11:55:00 UTC''\<rparr>"
proof -
  have s: "strip ''  last:5m '' = ''last:5m''" by code_simp
  show ?thesis
    using parse_range_strips_input [of "''  last:5m ''"
        "\<lparr>year = 2025, month = 12, day = 30, hour = 12, minute = 0, second = 0,
          microsecond = 0, tzinfo = Some 0\<rparr>"]
    unfolding s example_last_5m by simp
qed

text \<open>
  For results from the year 1000 on, \<open>since_arg\<close> has the pattern
  \<open>YYYY-MM-DD HH:MM:SS UTC\<close>; it always is the rendering of \<open>since_utc\<close>, which is in
  UTC.
\<close>

lemma since_arg_pattern_from_1000:
  assumes "parse_range s now = Inr tr" and "valid_datetime now"
    and "1000 \<le> year (since_utc tr)"
  shows "matches SINCE_PATTERN (since_arg tr)" and "since_arg tr = strftime_since (since_utc tr)"
    and "tzinfo (since_utc tr) = Some 0"
proof -
  note r = parse_range_result [OF assms(1) [unfolded parse_range_def] assms(2) fromisoformat_valid]
  show "since_arg tr = strftime_since (since_utc tr)" and "tzinfo (since_utc tr) = Some 0"
    using r by simp_all
  show "matches SINCE_PATTERN (since_arg tr)"
    using strftime_matches [OF r(4) assms(3)] r(2) by simp
qed

text \<open>
  Claim C6. The claim holds for results from the year 1000 on only. The input
  \<open>0999-01-01T00:00:00Z\<close> is accepted, and its \<open>since_arg\<close> is
  \<open>999-01-01 00:00:00 UTC\<close>, of 22 characters: it does not have the pattern
  \<open>YYYY-MM-DD HH:MM:SS UTC\<close> that the docstring of \<open>_format_journalctl_since_arg\<close>
  gives.
\<close>

theorem since_arg_short_year:
  "parse_range ''0999-01-01T00:00:00Z''
     \<lparr>year = 2025, month = 12, day = 30, hour = 12, minute = 0, second = 0, microsecond = 0,
      tzinfo = Some 0\<rparr>
   = Inr \<lparr>range_input = ''0999-01-01T00:00:00Z'',
          since_utc = \<lparr>year = 999, month = 1, day = 1, hour = 0, minute = 0, second = 0,
                       microsecond = 0, tzinfo = Some 0\<rparr>,
          since_arg = ''999-01-01 00:00:00 UTC''\<rparr>
   \<and> \<not> matches SINCE_PATTERN ''999-01-01 00:00:00 UTC''"
  by code_simp

text \<open>
  Claim C1, as amended. For every relative spec \<open>last:<n><unit>\<close> with a positive \<open>n\<close>
  written in at most 4300 digits and a unit among s, m, h, d in either case, and every
  timezone-aware \<open>now\<close> such that the instant of \<open>now\<close> and the instant \<open>n\<close> units
  before it both lie in the years 1 to 9999 of UTC, which are all a \<open>datetime\<close> can
  hold: \<open>parse_range\<close> returns a \<open>TimeRange\<close> whose \<open>since_utc\<close> is in UTC and is \<open>now\<close>
  minus exactly \<open>n\<close> seconds, minutes, hours or days, to the microsecond. For
  \<open>last:5m\<close> at 2025-12-30T12:00:00Z it returns 2025-12-30T11:55:00Z and
  \<open>2025-12-30 11:55:00 UTC\<close>.
\<close>

theorem relative_range_exact:
  assumes "ds \<noteq> []" and "list_all isdigit ds" and "length ds \<le> MAX_STR_DIGITS"
    and "u \<in> set ''smhdSMHD''"
    and "0 < digits_value ds" and "valid_datetime now" and "tzinfo now \<noteq> None"
    and "representable (instant now)"
    and "representable (instant now - duration_us (digits_value ds) u)"
  shows "(\<exists>tr. parse_range (''last:'' @ ds @ [u]) now = Inr tr
            \<and> range_input tr = ''last:'' @ ds @ [u]
            \<and> tzinfo (since_utc tr) = Some 0 \<and> valid_datetime (since_utc tr)
            \<and> instant (since_utc tr) = instant now - duration_us (digits_value ds) u)
       \<and> parse_range ''last:5m''
            \<lparr>year = 2025, month = 12, day = 30, hour = 12, minute = 0, second = 0,
             microsecond = 0, tzinfo = Some 0\<rparr>
          = Inr \<lparr>range_input = ''last:5m'',
                 since_utc = \<lparr>year = 2025, month = 12, day = 30, hour = 11, minute = 55,
                              second = 0, microsecond = 0, tzinfo = Some 0\<rparr>,
                 since_arg = ''2025-12-30 11:55:00 UTC''\<rparr>"
proof -
  define s where "s = ''last:'' @ ds @ [u]"
  define t where "t = instant now - duration_us (digits_value ds) u"
  have st: "strip s = s" unfolding s_def by (rule strip_spec [OF assms(4)])
  have ne: "strip s \<noteq> []" unfolding st by (simp add: s_def)
  have m: "rel_match (strip s) = Some (ds, u)"
    unfolding st unfolding s_def by (rule rel_match_spec [OF assms(1,2,4)])
  have rt: "representable t" using assms(9) by (simp add: t_def)
  have pr: "parse_range s now =
      Inr \<lparr>range_input = s, since_utc = of_local_us t (Some 0),
           since_arg = strftime_since (of_local_us t (Some 0))\<rparr>"
    unfolding parse_range_def
    using parse_range_relative [OF ne m assms(3,5,6,7), where fi = fromisoformat,
        folded t_def, unfolded st] assms(8) rt
    by simp
  have b: "1 \<le> t div US_PER_DAY" "t div US_PER_DAY \<le> MAXORDINAL"
    using rt by (simp_all add: representable_iff)
  have z: "tz_ok (Some 0)" by (simp add: tz_ok_def US_PER_DAY_def)
  note p = of_local_us_props [OF b(1), of "Some 0"]
  have i: "instant (of_local_us t (Some 0)) = t" using p(1,2) by (simp add: instant_def)
  have "\<exists>tr. parse_range s now = Inr tr \<and> range_input tr = s
          \<and> tzinfo (since_utc tr) = Some 0 \<and> valid_datetime (since_utc tr)
          \<and> instant (since_utc tr) = t"
    using pr p(2) p(3) [OF b(2) z] i by simp
  then show ?thesis unfolding s_def t_def using example_last_5m by simp
qed

theorem relative_range_exact_witness:
  "\<exists>tr. parse_range ''last:5m''
            \<lparr>year = 2025, month = 12, day = 30, hour = 12, minute = 0, second = 0,
             microsecond = 0, tzinfo = Some 0\<rparr> = Inr tr
      \<and> instant (since_utc tr)
          = instant \<lparr>year = 2025, month = 12, day = 30, hour = 12, minute = 0, second = 0,
                     microsecond = 0, tzinfo = Some 0\<rparr> - 5 * 60 * 1000000"
proof -
  define N where "N = \<lparr>year = 2025, month = 12, day = 30, hour = 12, minute = 0, second = 0,
             microsecond = 0, tzinfo = Some (0::int)\<rparr>"
  have d: "duration_us (digits_value ''5'') (CHR ''m'') = 5 * 60 * 1000000" by code_simp
  have h: "''5'' \<noteq> []" "list_all isdigit ''5''" "length ''5'' \<le> MAX_STR_DIGITS"
    "CHR ''m'' \<in> set ''smhdSMHD''"
    "0 < digits_value ''5''" "valid_datetime N" "tzinfo N \<noteq> None"
    "representable (instant N)"
    "representable (instant N - duration_us (digits_value ''5'') (CHR ''m''))"
    unfolding N_def by code_simp+
  show ?thesis
    using relative_range_exact [OF h] unfolding d N_def by auto
qed

lemma parse_range_too_many_digits:
  assumes "list_all isdigit ds" and "MAX_STR_DIGITS < length ds" and "u \<in> set ''smhdSMHD''"
    and "tzinfo now \<noteq> None"
  shows "parse_range (''last:'' @ ds @ [u]) now = Inl (ValueError (INT_LIMIT_MSG (length ds)))"
proof -
  define s where "s = ''last:'' @ ds @ [u]"
  have ne0: "ds \<noteq> []" using assms(2) by auto
  have st: "strip s = s" unfolding s_def by (rule strip_spec [OF assms(3)])
  have ne: "strip s \<noteq> []" unfolding st by (simp add: s_def)
  have m: "rel_match (strip s) = Some (ds, u)"
    unfolding st unfolding s_def by (rule rel_match_spec [OF ne0 assms(1,3)])
  show ?thesis
    unfolding parse_range_def s_def [symmetric] parse_range_rel [OF ne assms(4) m]
    by (simp add: to_int_Inl [OF assms(2)] bind_err_def)
qed

theorem relative_range_counterexample:
  "parse_range ''last:1000000d''
     \<lparr>year = 2025, month = 12, day = 30, hour = 12, minute = 0, second = 0, microsecond = 0,
      tzinfo = Some 0\<rparr> = Inl OverflowError
   \<and> parse_range (''last:'' @ replicate 4300 (CHR ''0'') @ ''1'' @ ''m'')
     \<lparr>year = 2025, month = 12, day = 30, hour = 12, minute = 0, second = 0, microsecond = 0,
      tzinfo = Some 0\<rparr> = Inl (ValueError (INT_LIMIT_MSG 4301))
   \<and> parse_range ''last:5m''
     \<lparr>year = 1, month = 1, day = 1, hour = 0, minute = 30, second = 0, microsecond = 0,
      tzinfo = Some 3600000000\<rparr> = Inl OverflowError"
proof -
  have c: "parse_range ''last:5m''
     \<lparr>year = 1, month = 1, day = 1, hour = 0, minute = 30, second = 0, microsecond = 0,
      tzinfo = Some 3600000000\<rparr> = Inl OverflowError"
    by code_simp
  have a: "parse_range ''last:1000000d''
     \<lparr>year = 2025, month = 12, day = 30, hour = 12, minute = 0, second = 0, microsecond = 0,
      tzinfo = Some 0\<rparr> = Inl OverflowError"
    by code_simp
  have d: "isdigit (CHR ''0'')" "isdigit (CHR ''1'')" by code_simp+
  have l: "list_all isdigit (replicate 4300 (CHR ''0'') @ ''1'')"
    using d by (simp add: list_all_iff)
  have n: "MAX_STR_DIGITS < length (replicate 4300 (CHR ''0'') @ ''1'')"
    by (simp add: MAX_STR_DIGITS_def)
  have u: "CHR ''m'' \<in> set ''smhdSMHD''" by simp
  have b: "parse_range (''last:'' @ (replicate 4300 (CHR ''0'') @ ''1'') @ [CHR ''m''])
     \<lparr>year = 2025, month = 12, day = 30, hour = 12, minute = 0, second = 0, microsecond = 0,
      tzinfo = Some 0\<rparr>
     = Inl (ValueError (INT_LIMIT_MSG (length (replicate 4300 (CHR ''0'') @ ''1''))))"
    by (rule parse_range_too_many_digits [OF l n u]) simp
  show ?thesis using a b c by simp
qed




section \<open>The Log Source Adapter\<close>

lemma journalctl_run_Exited:
  assumes "prog cmd = Exited rc (Decoded out) (Decoded err)"
  shows "journalctl_run prog cmd
           = Inr \<lparr>proc_returncode = rc, proc_stdout = Some out, proc_stderr = Some err\<rparr>"
  using assms by (simp add: journalctl_run_def subprocess_run_def)

text \<open>
  Claim C3, as amended. Whenever the external program was started and what it wrote
  to its two pipes decodes as text, then whatever its exit code, \<open>capture_kernel\<close> and
  \<open>capture_system\<close>, through the call \<open>run(command, text=True, capture_output=True,
  check=False)\<close>, return a \<open>CaptureResult\<close> and raise nothing: its \<open>ok\<close> flag is true
  exactly when the exit code is zero, it records the exit code, and its \<open>stdout\<close> and
  \<open>stderr\<close> are the captured texts, also when \<open>ok\<close> is false.
\<close>

theorem capture_never_raises_on_exit_code:
  assumes "prog [''journalctl'', ''-k'', ''--since'', q, ''--no-pager'', ''--output=short-iso'']
             = Exited rc (Decoded out) (Decoded err)"
    and "prog [''journalctl'', ''--since'', q, ''--no-pager'', ''--output=short-iso'']
             = Exited rc' (Decoded out') (Decoded err')"
  shows "(\<exists>r. capture_kernel (journalctl_run prog) q = Inr r \<and> ok r = (rc = 0)
              \<and> returncode r = rc \<and> stdout r = out \<and> stderr r = err)
       \<and> (\<exists>r. capture_system (journalctl_run prog) q = Inr r \<and> ok r = (rc' = 0)
              \<and> returncode r = rc' \<and> stdout r = out' \<and> stderr r = err')"
  using journalctl_run_Exited [where prog = prog, OF assms(1)]
    journalctl_run_Exited [where prog = prog, OF assms(2)]
  by (simp add: capture_kernel_def capture_system_def run_journalctl_def Let_def or_empty_def)

theorem capture_never_raises_on_exit_code_witness:
  "(\<exists>r. capture_kernel
          (journalctl_run (\<lambda>cmd. Exited 1 (Decoded ''partial'') (Decoded ''denied'')))
          ''2025-12-30 11:55:00 UTC'' = Inr r
        \<and> ok r = False \<and> returncode r = 1 \<and> stdout r = ''partial'' \<and> stderr r = ''denied'')
   \<and> (\<exists>r. capture_system
          (journalctl_run (\<lambda>cmd. Exited 1 (Decoded ''partial'') (Decoded ''denied'')))
          ''2025-12-30 11:55:00 UTC'' = Inr r
        \<and> ok r = False \<and> returncode r = 1 \<and> stdout r = ''partial'' \<and> stderr r = ''denied'')"
  using capture_never_raises_on_exit_code
    [of "\<lambda>cmd. Exited 1 (Decoded ''partial'') (Decoded ''denied'')"
        "''2025-12-30 11:55:00 UTC''" 1 "''partial''" "''denied''" 1 "''partial''" "''denied''"]
  by simp

theorem capture_counterexample:
  "capture_kernel (journalctl_run (\<lambda>cmd. Exited 1 Undecodable (Decoded ''denied'')))
     ''2025-12-30 11:55:00 UTC'' = Inl UnicodeDecodeError
   \<and> capture_system (journalctl_run (\<lambda>cmd. Exited 1 (Decoded ''partial'') Undecodable))
     ''2025-12-30 11:55:00 UTC'' = Inl UnicodeDecodeError"
  by (simp add: capture_kernel_def capture_system_def run_journalctl_def journalctl_run_def
      subprocess_run_def)

text \<open>
  Claim C7. For every \<open>since\<close> string the kernel capture asks the runner for exactly the
  command \<open>journalctl -k --since <since> --no-pager --output=short-iso\<close> and the
  all-units capture for exactly \<open>journalctl --since <since> --no-pager
  --output=short-iso\<close>, in this order of arguments; the result is built from the
  runner's answer to that command alone and records the command.
\<close>

theorem capture_argument_vectors:
  "capture_kernel run q =
     (case run [''journalctl'', ''-k'', ''--since'', q, ''--no-pager'', ''--output=short-iso''] of
        Inl e \<Rightarrow> Inl e
      | Inr proc \<Rightarrow>
          Inr \<lparr>ok = (proc_returncode proc = 0),
               command = [''journalctl'', ''-k'', ''--since'', q, ''--no-pager'',
                          ''--output=short-iso''],
               stdout = or_empty (proc_stdout proc), stderr = or_empty (proc_stderr proc),
               returncode = proc_returncode proc\<rparr>)
   \<and> capture_system run q =
     (case run [''journalctl'', ''--since'', q, ''--no-pager'', ''--output=short-iso''] of
        Inl e \<Rightarrow> Inl e
      | Inr proc \<Rightarrow>
          Inr \<lparr>ok = (proc_returncode proc = 0),
               command = [''journalctl'', ''--since'', q, ''--no-pager'', ''--output=short-iso''],
               stdout = or_empty (proc_stdout proc), stderr = or_empty (proc_stderr proc),
               returncode = proc_returncode proc\<rparr>)"
  by (simp add: capture_kernel_def capture_system_def run_journalctl_def Let_def)

section \<open>Properties of the JSON writer\<close>

lemma keys_sorted_sort_keys: "keys_sorted (sort_keys j)"
proof (induction j rule: sort_keys.induct)
  case (3 xs)
  then show ?case by (simp add: list_all_iff)
next
  case (4 kvs)
  have "sorted (map fst (sort_key fst (map (\<lambda>kv. (fst kv, sort_keys (snd kv))) kvs)))"
    by (rule sorted_sort_key)
  moreover have "list_all (\<lambda>kv. keys_sorted (snd kv))
                   (sort_key fst (map (\<lambda>kv. (fst kv, sort_keys (snd kv))) kvs))"
    using 4 by (auto simp add: list_all_iff)
  ultimately show ?case by simp
qed simp_all

lemma sorted_distinct_key_unique:
  assumes "sorted (map f xs)" "distinct (map f xs)" "sorted (map f ys)" "distinct (map f ys)"
    and "set xs = set ys"
  shows "xs = ys"
proof -
  have "set (map f xs) = set (map f ys)" using assms(5) by simp
  then have m: "map f xs = map f ys"
    using sorted_distinct_set_unique [OF assms(1,2,3,4)] by blast
  have "inj_on f (set xs \<union> set ys)" using assms(2,5) by (simp add: distinct_map)
  then show ?thesis using m by (simp add: inj_on_map_eq_map)
qed

lemma sort_key_dict:
  assumes "distinct (map f xs)" "distinct (map f ys)" "set xs = set ys"
  shows "sort_key f xs = sort_key f ys"
proof (rule sorted_distinct_key_unique [where f = f])
  show "sorted (map f (sort_key f xs))" "sorted (map f (sort_key f ys))"
    by (rule sorted_sort_key)+
  show "distinct (map f (sort_key f xs))" using assms(1) by (simp add: distinct_map)
  show "distinct (map f (sort_key f ys))" using assms(2) by (simp add: distinct_map)
  show "set (sort_key f xs) = set (sort_key f ys)" using assms(3) by simp
qed

lemma sort_keys_sources:
  assumes "distinct (map fst m1)" "distinct (map fst m2)" "set m1 = set m2"
  shows "sort_keys (JObject (map (\<lambda>kv. (fst kv, JString (snd kv))) m1))
       = sort_keys (JObject (map (\<lambda>kv. (fst kv, JString (snd kv))) m2))"
proof -
  let ?g = "\<lambda>kv :: string \<times> string. (fst kv, JString (snd kv))"
  have a: "map (\<lambda>kv. (fst kv, sort_keys (snd kv))) (map ?g m) = map ?g m" for m
    by simp
  have d1: "distinct (map fst (map ?g m1))" using assms(1) by (simp add: comp_def)
  have d2: "distinct (map fst (map ?g m2))" using assms(2) by (simp add: comp_def)
  have s: "set (map ?g m1) = set (map ?g m2)" using assms(3) by simp
  have "sort_key fst (map ?g m1) = sort_key fst (map ?g m2)"
    by (rule sort_key_dict [OF d1 d2 s])
  then show ?thesis unfolding sort_keys.simps a by simp
qed

lemma manifest_dict:
  assumes "distinct (map fst m1)" "distinct (map fst m2)" "set m1 = set m2"
  shows "sort_keys (manifest_payload tool ver rng since_iso ko m1 ws es)
       = sort_keys (manifest_payload tool ver rng since_iso ko m2 ws es)"
  using sort_keys_sources [OF assms] by (simp add: manifest_payload_def)

lemma write_text_InrD:
  assumes "write_text p content fs = Inr fs'"
  shows "\<exists>d. fs' = fs(d \<mapsto> File content)"
  using assms by (auto simp add: write_text_def split: if_splits sum.splits)

section \<open>Properties of the resolved instant as the run prints it\<close>

lemma digits_isdigit: "c \<in> set (digits n) \<Longrightarrow> isdigit c"
proof (induction n rule: digits.induct)
  case (1 n)
  show ?case
  proof (cases "n < 10")
    case True
    then show ?thesis using 1(2) by (simp add: digits.simps [of n] isdigit_digit_char)
  next
    case False
    then show ?thesis using 1
      by (auto simp add: digits.simps [of n] isdigit_digit_char)
  qed
qed

lemma zpad_isdigit: "c \<in> set (zpad w n) \<Longrightarrow> isdigit c"
proof -
  have "isdigit (CHR ''0'')" by code_simp
  then show "c \<in> set (zpad w n) \<Longrightarrow> isdigit c"
    by (auto simp add: zpad_def Let_def digits_isdigit)
qed

lemma zpad_no_plus: "CHR ''+'' \<notin> set (zpad w n)"
proof
  assume "CHR ''+'' \<in> set (zpad w n)"
  then have "isdigit (CHR ''+'')" by (rule zpad_isdigit)
  moreover have "\<not> isdigit (CHR ''+'')" by code_simp
  ultimately show False by simp
qed

lemma replace_offset:
  assumes "CHR ''+'' \<notin> set body"
  shows "replace (body @ ''+00:00'') ''+00:00'' ''Z'' = body @ ''Z''"
  using assms
proof (induction body)
  case Nil
  show ?case by simp
next
  case (Cons c cs)
  then show ?case by auto
qed

lemma since_iso_of_utc:
  assumes "tzinfo dt = Some 0"
  shows "\<exists>body. since_iso_of dt = Inr (body @ ''Z'') \<and> CHR ''+'' \<notin> set body"
proof -
  define body where "body =
     zpad 4 (year dt) @ ''-'' @ zpad 2 (month dt) @ ''-'' @ zpad 2 (day dt) @ ''T''
     @ zpad 2 (hour dt) @ '':'' @ zpad 2 (minute dt) @ '':'' @ zpad 2 (second dt)
     @ (if microsecond dt \<noteq> 0 then ''.'' @ zpad 6 (microsecond dt) else [])"
  have z: "zpad 2 0 = ''00''" by code_simp
  have o: "format_offset 0 = ''+00:00''" by (simp add: format_offset_def z)
  have i: "isoformat dt = body @ ''+00:00''"
    by (simp add: isoformat_def body_def assms o)
  have p: "CHR ''+'' \<notin> set body" by (simp add: body_def zpad_no_plus)
  have a: "astimezone_utc dt = Inr dt" by (simp add: astimezone_utc_def assms)
  have "since_iso_of dt = Inr (body @ ''Z'')"
    by (simp add: since_iso_of_def a bind_err_def i replace_offset [OF p])
  then show ?thesis using p by blast
qed

section \<open>The Artifact Writer: the manifest\<close>

lemma write_manifest_InrD:
  assumes "write_manifest p tool ver rng since_iso ko m ws es fs = Inr fs'"
  shows "\<exists>d. fs' = fs(d \<mapsto> File (render 0 (sort_keys
               (manifest_payload tool ver rng since_iso ko m ws es)) @ [CHR 0x0A]))"
  using write_text_InrD [of p _ fs fs'] assms
  by (simp add: write_manifest_def write_json_def dumps_def)

lemma write_text_empty:
  "write_text [n] content Map.empty = (if CHR 0x00 \<in> set n then Inl (ValueError NUL_MSG)
      else if n = ''..'' then Inl IsADirectoryError else Inr [[n] \<mapsto> File content])"
  by (simp add: write_text_def has_nul_def node_at_def)

section \<open>Properties of the file system\<close>

lemma dirs_added_refl: "dirs_added fs fs"
  by (simp add: dirs_added_def)

lemma dirs_added_trans: "dirs_added fs fs1 \<Longrightarrow> dirs_added fs1 fs2 \<Longrightarrow> dirs_added fs fs2"
  unfolding dirs_added_def by metis

lemma dirs_added_map_le: "dirs_added fs fs' \<Longrightarrow> fs \<subseteq>\<^sub>m fs'"
  unfolding dirs_added_def map_le_def by (metis domIff)

lemma node_at_mono: "fs \<subseteq>\<^sub>m fs' \<Longrightarrow> node_at fs q = Some n \<Longrightarrow> node_at fs' q = Some n"
  unfolding node_at_def map_le_def by (auto split: if_splits simp add: dom_def)

lemma walk_mono:
  assumes "fs \<subseteq>\<^sub>m fs'"
  shows "walk fs cur p = Inr d \<Longrightarrow> walk fs' cur p = Inr d"
proof (induction p arbitrary: cur)
  case Nil
  then show ?case by simp
next
  case (Cons c cs)
  show ?case
  proof (cases "c = ''..''")
    case True
    then show ?thesis using Cons by simp
  next
    case False
    from Cons.prems False have n: "node_at fs (cur @ [c]) = Some Dir"
      and w: "walk fs (cur @ [c]) cs = Inr d"
      by (auto split: option.splits node.splits)
    have "node_at fs' (cur @ [c]) = Some Dir" by (rule node_at_mono [OF assms n])
    then show ?thesis using False Cons.IH [OF w] by simp
  qed
qed

lemma walk_append:
  "walk fs cur (p @ q) = (case walk fs cur p of Inl e \<Rightarrow> Inl e | Inr d \<Rightarrow> walk fs d q)"
  by (induction p arbitrary: cur) (auto split: option.splits node.splits)

lemma walk_snoc:
  assumes "walk fs cur p = Inr d" and "c \<noteq> ''..''"
  shows "walk fs cur (p @ [c]) =
           (case node_at fs (d @ [c]) of None \<Rightarrow> Inl FileNotFoundError
            | Some (File t) \<Rightarrow> Inl NotADirectoryError | Some Dir \<Rightarrow> Inr (d @ [c]))"
  using assms by (simp add: walk_append split: option.splits node.splits)

lemma walk_dir:
  assumes "wf_fs fs"
  shows "node_at fs cur = Some Dir \<Longrightarrow> walk fs cur p = Inr d \<Longrightarrow> node_at fs d = Some Dir"
proof (induction p arbitrary: cur)
  case Nil
  then show ?case by simp
next
  case (Cons c cs)
  show ?case
  proof (cases "c = ''..''")
    case True
    have "node_at fs (butlast cur) = Some Dir"
    proof (cases "cur = []")
      case True
      then show ?thesis by (simp add: node_at_def)
    next
      case False
      then have "fs cur \<noteq> None" using Cons.prems(1) by (simp add: node_at_def)
      then show ?thesis using assms by (simp add: wf_fs_def)
    qed
    then show ?thesis using Cons True by simp
  next
    case False
    from Cons.prems False have n: "node_at fs (cur @ [c]) = Some Dir"
      and w: "walk fs (cur @ [c]) cs = Inr d"
      by (auto split: option.splits node.splits)
    show ?thesis by (rule Cons.IH [OF n w])
  qed
qed

lemma walk_root_dir: "wf_fs fs \<Longrightarrow> walk fs [] p = Inr d \<Longrightarrow> node_at fs d = Some Dir"
  by (rule walk_dir [where cur = "[]"]) (simp_all add: node_at_def)

lemma snoc_butlast: "p \<noteq> [] \<Longrightarrow> butlast p @ [last p] = p"
  by simp

lemma os_mkdir_InrD:
  assumes "os_mkdir fs p = Inr fs'"
  shows "\<not> has_nul p" and "p \<noteq> []" and "last p \<noteq> ''..''"
    and "\<exists>d. walk fs [] (butlast p) = Inr d \<and> fs (d @ [last p]) = None
             \<and> fs' = fs(d @ [last p] \<mapsto> Dir)"
  using assms
  by (auto simp add: os_mkdir_def node_at_def split: if_splits sum.splits)

lemma dirs_added_upd: "fs q = None \<Longrightarrow> dirs_added fs (fs(q \<mapsto> Dir))"
  by (simp add: dirs_added_def)

lemma wf_fs_upd:
  assumes "wf_fs fs" and "node_at fs d = Some Dir" and "fs (d @ [c]) \<noteq> Some Dir \<or> n = Dir"
  shows "wf_fs (fs(d @ [c] \<mapsto> n))"
  unfolding wf_fs_def
proof (intro allI impI)
  fix q
  assume q: "(fs(d @ [c] \<mapsto> n)) q \<noteq> None"
  show "q \<noteq> [] \<and> node_at (fs(d @ [c] \<mapsto> n)) (butlast q) = Some Dir"
  proof (cases "q = d @ [c]")
    case True
    have "d \<noteq> d @ [c]" by simp
    then show ?thesis using True assms(2) by (auto simp add: node_at_def split: if_splits)
  next
    case False
    then have e: "fs q \<noteq> None" using q by simp
    then have ne: "q \<noteq> []" and b: "node_at fs (butlast q) = Some Dir"
      using assms(1) by (simp_all add: wf_fs_def)
    show ?thesis
    proof (cases "butlast q = d @ [c]")
      case True
      then have "fs (d @ [c]) = Some Dir" using b by (simp add: node_at_def split: if_splits)
      then have "n = Dir" using assms(3) by simp
      then show ?thesis using ne b True
        by (auto simp add: node_at_def split: if_splits)
    next
      case False
      then show ?thesis using ne b by (auto simp add: node_at_def split: if_splits)
    qed
  qed
qed

lemma os_mkdir_props:
  assumes "os_mkdir fs p = Inr fs'"
  shows "dirs_added fs fs'" and "is_dir fs' p" and "wf_fs fs \<Longrightarrow> wf_fs fs'"
proof -
  note h = os_mkdir_InrD [OF assms]
  obtain d where d: "walk fs [] (butlast p) = Inr d" "fs (d @ [last p]) = None"
    "fs' = fs(d @ [last p] \<mapsto> Dir)"
    using h(4) by blast
  show a: "dirs_added fs fs'"
    unfolding d(3) using d(2) by (rule dirs_added_upd [of fs "d @ [last p]"])
  have w: "walk fs' [] (butlast p) = Inr d"
    by (rule walk_mono [OF dirs_added_map_le [OF a] d(1)])
  have "walk fs' [] (butlast p @ [last p]) = Inr (d @ [last p])"
    unfolding walk_snoc [OF w h(3)] by (simp add: d(3) node_at_def)
  then show "is_dir fs' p" using h(1,2) by (simp add: is_dir_def)
  show "wf_fs fs'" if "wf_fs fs"
    unfolding d(3) using d(2) by (intro wf_fs_upd [OF that walk_root_dir [OF that d(1)]]) simp
qed

lemma mkdir_unfold:
  "mkdir parents exist_ok p fs =
     (case os_mkdir fs p of
        Inr fs' \<Rightarrow> (Inr (), fs')
      | Inl e \<Rightarrow>
          if e = FileNotFoundError then
            (if \<not> parents \<or> p = [] then (Inl e, fs)
             else (case mkdir True True (butlast p) fs of
                     (Inl e', fs1) \<Rightarrow> (Inl e', fs1)
                   | (Inr u, fs1) \<Rightarrow> mkdir False exist_ok p fs1))
          else if (\<exists>m. e = ValueError m) \<or> \<not> exist_ok \<or> \<not> is_dir fs p then (Inl e, fs)
          else (Inr (), fs))"
  by (subst mkdir.simps) (auto split: sum.splits error.splits)

lemma mkdir_props:
  "mkdir parents exist_ok p fs = (r, fs') \<Longrightarrow>
     dirs_added fs fs' \<and> (wf_fs fs \<longrightarrow> wf_fs fs') \<and> (r = Inr () \<longrightarrow> is_dir fs' p)"
proof (induction parents exist_ok p fs arbitrary: r fs' rule: mkdir.induct)
  case (1 parents exist_ok p fs)
  show ?case
  proof (cases "os_mkdir fs p")
    case (Inr fs1)
    then have "r = Inr ()" "fs' = fs1" using "1.prems" by (simp_all add: mkdir_unfold [of _ _ p fs])
    then show ?thesis using os_mkdir_props [OF Inr] by simp
  next
    case (Inl e)
    show ?thesis
    proof (cases "e = FileNotFoundError \<and> \<not> (\<not> parents \<or> p = [])")
      case False
      then have "fs' = fs" and "r = Inr () \<longrightarrow> is_dir fs p"
        using "1.prems" Inl by (auto simp add: mkdir_unfold [of _ _ p fs] split: if_splits)
      then show ?thesis by (simp add: dirs_added_refl)
    next
      case True
      obtain r1 fs1 where m1: "mkdir True True (butlast p) fs = (r1, fs1)" by force
      have e: "e = FileNotFoundError" and c: "\<not> (\<not> parents \<or> p = [])" using True by simp_all
      note i1 = "1.IH"(1) [OF Inl e c m1]
      show ?thesis
      proof (cases r1)
        case (Inl e1)
        then have "fs' = fs1" "r = Inl e1"
          using "1.prems" \<open>os_mkdir fs p = Inl e\<close> e c m1
          by (simp_all add: mkdir_unfold [of _ _ p fs])
        then show ?thesis using i1 by simp
      next
        case (Inr u)
        then have m2: "mkdir False exist_ok p fs1 = (r, fs')"
          using "1.prems" \<open>os_mkdir fs p = Inl e\<close> e c m1
          by (simp add: mkdir_unfold [of _ _ p fs])
        note i2 = "1.IH"(2) [OF \<open>os_mkdir fs p = Inl e\<close> e c m1 [symmetric] Inr m2]
        show ?thesis using i1 i2 dirs_added_trans by blast
      qed
    qed
  qed
qed

lemma is_dir_os_mkdir:
  assumes "is_dir fs p"
  shows "os_mkdir fs p = Inl FileExistsError"
proof (cases "p = []")
  case True
  then show ?thesis using assms by (simp add: os_mkdir_def is_dir_def)
next
  case False
  obtain d where d: "walk fs [] (butlast p @ [last p]) = Inr d" and n: "\<not> has_nul p"
    using assms False by (auto simp add: is_dir_def split: sum.splits)
  then obtain d0 where d0: "walk fs [] (butlast p) = Inr d0"
    by (auto simp add: walk_append split: sum.splits)
  show ?thesis
  proof (cases "last p = ''..''")
    case True
    then show ?thesis using False n d0 by (simp add: os_mkdir_def)
  next
    case l: False
    have "node_at fs (d0 @ [last p]) \<noteq> None"
      using d unfolding walk_snoc [OF d0 l] by (auto split: option.splits)
    then show ?thesis using False n d0 by (simp add: os_mkdir_def)
  qed
qed

lemma mkdir_existing:
  assumes "is_dir fs p"
  shows "mkdir parents False p fs = (Inl FileExistsError, fs)"
  by (simp add: mkdir_unfold [of _ _ p fs] is_dir_os_mkdir [OF assms])

section \<open>The Session Builder\<close>

lemma create_session_unfold:
  "create_session a (Some t) now fs =
     (case mkdir True False (joinpath (joinpath a (''session-'' @ t)) ''sources'') fs of
        (Inl e, fs') \<Rightarrow> (Inl e, fs')
      | (Inr u, fs') \<Rightarrow>
          (Inr \<lparr>session_dir = joinpath a (''session-'' @ t),
                sources_dir = joinpath (joinpath a (''session-'' @ t)) ''sources'',
                report_path = joinpath (joinpath a (''session-'' @ t)) ''report.txt'',
                manifest_path = joinpath (joinpath a (''session-'' @ t)) ''manifest.json''\<rparr>,
           fs'))"
  by (simp only: create_session_def Let_def option.case)

text \<open>
  Claim C5, as amended. \<open>create_session\<close> fails with \<open>FileExistsError\<close>, and changes
  nothing, whenever the \<open>sources\<close> directory of the session named by the timestamp
  exists. In particular, for every archives root and explicit timestamp, after a call
  that succeeded a second call with the same timestamp fails and leaves the file
  system as the first call left it. Whatever its result, a call only adds directories:
  no entry that existed is changed or removed.
\<close>

theorem create_session_collision:
  "(is_dir fs (joinpath (joinpath a (''session-'' @ t)) ''sources'')
      \<longrightarrow> create_session a (Some t) now fs = (Inl FileExistsError, fs))
   \<and> (create_session a (Some t) now fs = (Inr sp, fs')
      \<longrightarrow> create_session a (Some t) now' fs' = (Inl FileExistsError, fs'))
   \<and> (create_session a (Some t) now fs = (r, fs') \<longrightarrow> dirs_added fs fs')"
proof -
  define srcs where "srcs = joinpath (joinpath a (''session-'' @ t)) ''sources''"
  have 1: "create_session a (Some t) n f = (Inl FileExistsError, f)" if "is_dir f srcs" for n f
    unfolding create_session_unfold srcs_def [symmetric] mkdir_existing [OF that] by simp
  have 2: "dirs_added fs fs' \<and> (\<forall>sp. r = Inr sp \<longrightarrow> is_dir fs' srcs)"
    if c: "create_session a (Some t) now fs = (r, fs')" for r fs'
  proof -
    obtain r0 where m: "mkdir True False srcs fs = (r0, fs')" and "\<forall>sp. r = Inr sp \<longrightarrow> r0 = Inr ()"
      using c unfolding create_session_unfold srcs_def [symmetric]
      by (cases "mkdir True False srcs fs") (auto split: sum.splits)
    then show ?thesis using mkdir_props [OF m] by blast
  qed
  show ?thesis using 1 2 unfolding srcs_def by blast
qed

theorem create_session_collision_witness:
  "\<exists>sp fs'. create_session [''archives''] (Some ''20251230T120000Z'')
              \<lparr>year = 2025, month = 12, day = 30, hour = 12, minute = 0, second = 0,
               microsecond = 0, tzinfo = Some 0\<rparr> Map.empty = (Inr sp, fs')
      \<and> create_session [''archives''] (Some ''20251230T120000Z'')
              \<lparr>year = 2025, month = 12, day = 30, hour = 12, minute = 0, second = 0,
               microsecond = 0, tzinfo = Some 0\<rparr> fs' = (Inl FileExistsError, fs')"
proof -
  define N where "N = \<lparr>year = 2025, month = 12, day = 30, hour = 12, minute = 0, second = 0,
               microsecond = 0, tzinfo = Some (0::int)\<rparr>"
  define sp where "sp = \<lparr>session_dir = [''archives'', ''session-20251230T120000Z''],
      sources_dir = [''archives'', ''session-20251230T120000Z'', ''sources''],
      report_path = [''archives'', ''session-20251230T120000Z'', ''report.txt''],
      manifest_path = [''archives'', ''session-20251230T120000Z'', ''manifest.json'']\<rparr>"
  have f: "fst (create_session [''archives''] (Some ''20251230T120000Z'') N Map.empty) = Inr sp"
    unfolding N_def sp_def by code_simp
  then obtain fs' where
    c: "create_session [''archives''] (Some ''20251230T120000Z'') N Map.empty = (Inr sp, fs')"
    by (cases "create_session [''archives''] (Some ''20251230T120000Z'') N Map.empty") simp
  show ?thesis
    using create_session_collision [of Map.empty "[''archives'']" "''20251230T120000Z''" N sp fs' N]
      c unfolding N_def by blast
qed

theorem create_session_counterexample:
  "[[''archives''] \<mapsto> Dir, [''archives'', ''session-20251230T120000Z''] \<mapsto> Dir,
    [''archives'', ''session-20251230T120000Z'', ''report.txt''] \<mapsto> File ''kept'']
     [''archives'', ''session-20251230T120000Z''] = Some Dir
   \<and> fst (create_session [''archives''] (Some ''20251230T120000Z'')
          \<lparr>year = 2025, month = 12, day = 30, hour = 12, minute = 0, second = 0,
           microsecond = 0, tzinfo = Some 0\<rparr>
          [[''archives''] \<mapsto> Dir, [''archives'', ''session-20251230T120000Z''] \<mapsto> Dir,
           [''archives'', ''session-20251230T120000Z'', ''report.txt''] \<mapsto> File ''kept''])
     = Inr \<lparr>session_dir = [''archives'', ''session-20251230T120000Z''],
            sources_dir = [''archives'', ''session-20251230T120000Z'', ''sources''],
            report_path = [''archives'', ''session-20251230T120000Z'', ''report.txt''],
            manifest_path = [''archives'', ''session-20251230T120000Z'', ''manifest.json'']\<rparr>"
  by code_simp

end
